theory Spec2Isabelle
  imports Main "HOL-Library.Multiset" "HOL-Library.Char_ord" "HOL-Library.List_Lexorder"
begin

section \<open>Data model\<close>

text \<open>
  The program is \<^verbatim>\<open>find_embedded_sql.py\<close>. A path is the string that
  \<^verbatim>\<open>str(Path(...))\<close> gives on a POSIX system; a data frame with the two columns
  \<^verbatim>\<open>Filepath\<close> and \<^verbatim>\<open>Sql\<close> is the list of its rows, in index order;
  the files that hold a table in feather format are a map from paths to tables
  (\<^verbatim>\<open>to_feather\<close> followed by \<^verbatim>\<open>read_feather\<close> gives the table back).
\<close>

type_synonym path = string

type_synonym row = "string \<times> string"

type_synonym dataframe = "row list"

type_synonym disk = "path \<rightharpoonup> dataframe"

definition NUM_FILES_IN_BATCH :: nat where
  "NUM_FILES_IN_BATCH = 100"

definition RESULTS_DF :: path where
  "RESULTS_DF = ''results.feather''"

section \<open>Paths (pathlib, POSIX flavour)\<close>

text \<open>\<^verbatim>\<open>str.split(sep)\<close> for a one-character separator.\<close>

fun split_sep :: "char \<Rightarrow> string \<Rightarrow> string list" where
  "split_sep sep [] = [[]]"
| "split_sep sep (c # cs) =
     (if c = sep then [] # split_sep sep cs
      else (case split_sep sep cs of
              [] \<Rightarrow> [[c]]
            | p # ps \<Rightarrow> (c # p) # ps))"

text \<open>The root of a POSIX path: exactly two leading slashes are kept, any other number
  of leading slashes is one.\<close>

definition path_root :: "path \<Rightarrow> string" where
  "path_root s =
     (if take 2 s = ''//'' \<and> take 3 s \<noteq> ''///'' then ''//''
      else if take 1 s = ''/'' then ''/''
      else [])"

text \<open>The components after the root: empty components and \<^verbatim>\<open>.\<close> are dropped.\<close>

definition path_tail :: "path \<Rightarrow> string list" where
  "path_tail s = filter (\<lambda>p. p \<noteq> [] \<and> p \<noteq> ''.'') (split_sep CHR ''/'' s)"

definition path_parts :: "path \<Rightarrow> string list" where
  "path_parts s = (if path_root s = [] then [] else [path_root s]) @ path_tail s"

definition path_name :: "path \<Rightarrow> string" where
  "path_name s = (if path_tail s = [] then [] else last (path_tail s))"

text \<open>\<^verbatim>\<open>str.rfind(c)\<close>: the last index of the character, \<open>None\<close> for Python's -1.\<close>

fun rfind :: "char \<Rightarrow> string \<Rightarrow> nat option" where
  "rfind c [] = None"
| "rfind c (x # xs) =
     (case rfind c xs of
        Some i \<Rightarrow> Some (Suc i)
      | None \<Rightarrow> if x = c then Some 0 else None)"

definition path_suffix :: "path \<Rightarrow> string" where
  "path_suffix s =
     (let n = path_name s in
      case rfind CHR ''.'' n of
        None \<Rightarrow> []
      | Some i \<Rightarrow> if 0 < i \<and> i + 1 < length n then drop i n else [])"

section \<open>File Enumerator and Batcher\<close>

text \<open>
  \<^verbatim>\<open>REASONS_TO_SKIP_FILE\<close>: the entry is a directory, or one of its parts is
  \<^verbatim>\<open>.git\<close>. Whether a path is a directory is a question to the file system, here the
  predicate \<open>is_dir\<close>.
\<close>

definition REASONS_TO_SKIP_FILE :: "(path \<Rightarrow> bool) \<Rightarrow> (path \<Rightarrow> bool) list" where
  "REASONS_TO_SKIP_FILE is_dir =
     [\<lambda>file_path. is_dir file_path,
      \<lambda>file_path. ''.git'' \<in> set (path_parts file_path)]"

text \<open>
  \<^verbatim>\<open>yield_files\<close>: the loop over \<^verbatim>\<open>target_loc.glob('**/*')\<close>, whose result is
  the list \<open>globbed\<close>; \<open>target_exts\<close> is \<open>None\<close> when the option is not given.
\<close>

fun yield_files :: "(path \<Rightarrow> bool) \<Rightarrow> string list option \<Rightarrow> path list \<Rightarrow> path list" where
  "yield_files is_dir target_exts [] = []"
| "yield_files is_dir target_exts (file # globbed) =
     (if list_ex (\<lambda>reason_to_skip_file. reason_to_skip_file file) (REASONS_TO_SKIP_FILE is_dir)
         \<or> (case target_exts of
               None \<Rightarrow> False
             | Some exts \<Rightarrow> path_suffix file \<notin> set exts)
      then yield_files is_dir target_exts globbed
      else file # yield_files is_dir target_exts globbed)"

text \<open>
  \<^verbatim>\<open>yield_file_batches\<close>: \<open>files\<close> is the list being filled; a batch is emitted as
  soon as it holds at least \<open>n\<close> files, and what is left at the end is emitted when it
  is not empty. The program runs it with \<open>n = NUM_FILES_IN_BATCH\<close>.
\<close>

fun batches_loop :: "nat \<Rightarrow> 'a list \<Rightarrow> 'a list \<Rightarrow> 'a list list" where
  "batches_loop n files [] = (if files \<noteq> [] then [files] else [])"
| "batches_loop n files (file # rest) =
     (let files' = files @ [file] in
      if length files' \<ge> n then files' # batches_loop n [] rest
      else batches_loop n files' rest)"

definition yield_file_batches :: "nat \<Rightarrow> 'a list \<Rightarrow> 'a list list" where
  "yield_file_batches n enumerated = batches_loop n [] enumerated"

section \<open>Extractor\<close>

text \<open>
  File contents are bytes; a \<^typ>\<open>char\<close> is one byte. An exception is a value: any
  instance of a subclass of \<^verbatim>\<open>Exception\<close>, with the text of its traceback.
\<close>

type_synonym bytes = "char list"

datatype exn = PyException string

text \<open>
  \<^verbatim>\<open>str(b)\<close> of a bytes object is its \<^verbatim>\<open>repr\<close>: the letter \<^verbatim>\<open>b\<close>, a quote,
  every byte printed or escaped, and the quote again. The quote is the single quote
  (0x27), unless the bytes hold a single quote and no double quote (0x22). The quote and
  the backslash (0x5C) are escaped with a backslash; tab, line feed and carriage return
  are written \<^verbatim>\<open>\t\<close>, \<^verbatim>\<open>\n\<close>, \<^verbatim>\<open>\r\<close>; a byte below 0x20 or from 0x7F
  on is written \<^verbatim>\<open>\xhh\<close> with two lower-case hexadecimal digits.
\<close>

definition hexdigits :: string where
  "hexdigits = ''0123456789abcdef''"

definition bytes_quote :: "bytes \<Rightarrow> char" where
  "bytes_quote b = (if CHR 0x27 \<in> set b \<and> CHR 0x22 \<notin> set b then CHR 0x22 else CHR 0x27)"

definition repr_byte :: "char \<Rightarrow> char \<Rightarrow> string" where
  "repr_byte quote c =
     (if c = quote \<or> c = CHR 0x5C then [CHR 0x5C, c]
      else if c = CHR 0x09 then [CHR 0x5C, CHR ''t'']
      else if c = CHR 0x0A then [CHR 0x5C, CHR ''n'']
      else if c = CHR 0x0D then [CHR 0x5C, CHR ''r'']
      else if (of_char c :: nat) < 32 \<or> (of_char c :: nat) \<ge> 127
        then [CHR 0x5C, CHR ''x'', hexdigits ! (of_char c div 16), hexdigits ! (of_char c mod 16)]
      else [c])"

definition bytes_str :: "bytes \<Rightarrow> string" where
  "bytes_str b =
     (let quote = bytes_quote b in
      [CHR ''b'', quote] @ concat (map (repr_byte quote) b) @ [quote])"

text \<open>\<^verbatim>\<open>str.upper()\<close> on the characters a text of \<open>bytes_str\<close> holds (all ASCII).\<close>

definition upper_char :: "char \<Rightarrow> char" where
  "upper_char c =
     (if 97 \<le> (of_char c :: nat) \<and> (of_char c :: nat) \<le> 122
      then char_of ((of_char c :: nat) - 32) else c)"

definition upper :: "string \<Rightarrow> string" where
  "upper s = map upper_char s"

text \<open>
  The pattern \<^verbatim>\<open>SELECT .+?FROM.+?;\<close> is a sequence of literals and lazy
  \<^verbatim>\<open>.+?\<close> items. \<open>match_here\<close> is the backtracking match of
  \<^verbatim>\<open>re\<close> at the start of a string: it gives the length of the first match in
  priority order. A lazy item takes one character, which is not a line feed (the pattern
  is compiled without \<^verbatim>\<open>DOTALL\<close>), then tries the rest of the pattern, and takes
  one more character only when the rest fails.
\<close>

datatype regex_item = Lit string | LazyAnyPlus

definition SQL_PATTERN :: "regex_item list" where
  "SQL_PATTERN = [Lit ''SELECT '', LazyAnyPlus, Lit ''FROM'', LazyAnyPlus, Lit '';'']"

fun match_here :: "regex_item list \<Rightarrow> string \<Rightarrow> nat option" where
  "match_here [] s = Some 0"
| "match_here (Lit l # r) s =
     (if take (length l) s = l
      then map_option (\<lambda>k. length l + k) (match_here r (drop (length l) s))
      else None)"
| "match_here (LazyAnyPlus # r) [] = None"
| "match_here (LazyAnyPlus # r) (c # s) =
     (if c = CHR 0x0A then None
      else (case match_here r s of
              Some k \<Rightarrow> Some (Suc k)
            | None \<Rightarrow> map_option Suc (match_here (LazyAnyPlus # r) s)))"

text \<open>
  \<^verbatim>\<open>re.finditer\<close>: the matches from left to right, without overlap. \<open>skip\<close> counts
  the characters of the last match that are still to be passed. The pattern matches no
  empty string, so the search after a match resumes at the end of the match.
\<close>

fun finditer_from :: "regex_item list \<Rightarrow> nat \<Rightarrow> string \<Rightarrow> string list" where
  "finditer_from pat skip [] = []"
| "finditer_from pat (Suc skip) (c # s) = finditer_from pat skip s"
| "finditer_from pat 0 (c # s) =
     (case match_here pat (c # s) of
        None \<Rightarrow> finditer_from pat 0 s
      | Some k \<Rightarrow> take k (c # s) # finditer_from pat (k - 1) s)"

definition finditer :: "regex_item list \<Rightarrow> string \<Rightarrow> string list" where
  "finditer pat s = finditer_from pat 0 s"

text \<open>
  \<^verbatim>\<open>FileProcessor.process_file\<close>. \<open>read file\<close> is
  \<^verbatim>\<open>open(file,'rb').read()\<close>: the bytes of the file, or the exception it raises.
  Each match appends the row \<^verbatim>\<open>[str(file), match.group(0)]\<close>.
\<close>

definition process_file :: "(path \<Rightarrow> exn + bytes) \<Rightarrow> path \<Rightarrow> exn + dataframe" where
  "process_file read file =
     (case read file of
        Inl e \<Rightarrow> Inl e
      | Inr content \<Rightarrow>
          (let file_content = upper (bytes_str content) in
           Inr (map (\<lambda>match. (file, match)) (finditer SQL_PATTERN file_content))))"

section \<open>Batch Processor\<close>

text \<open>\<^verbatim>\<open>traceback.format_exc()\<close> in a handler: the text of the exception caught.\<close>

definition format_exc :: "exn \<Rightarrow> string" where
  "format_exc e = (case e of PyException tb \<Rightarrow> tb)"

text \<open>
  \<^verbatim>\<open>FileProcessor.yield_processing_results\<close>: one pair per file, in the order of the
  batch; the \<^verbatim>\<open>except Exception\<close> of the loop body turns an exception of
  \<^verbatim>\<open>process_file\<close> into the pair \<^verbatim>\<open>(None, traceback)\<close>, and the loop goes on.
\<close>

fun yield_processing_results ::
  "(path \<Rightarrow> exn + bytes) \<Rightarrow> path list \<Rightarrow> (dataframe option \<times> string option) list" where
  "yield_processing_results read [] = []"
| "yield_processing_results read (file # files) =
     (case process_file read file of
        Inr result \<Rightarrow> (Some result, None)
      | Inl e \<Rightarrow> (None, Some (format_exc e)))
     # yield_processing_results read files"

text \<open>\<^verbatim>\<open>pd.concat([process_result,result_container],ignore_index=True)\<close>: the rows of
  the new result come first.\<close>

definition add_result_to_container :: "dataframe \<Rightarrow> dataframe \<Rightarrow> dataframe" where
  "add_result_to_container process_result result_container = process_result @ result_container"

text \<open>
  The loop of \<^verbatim>\<open>process_files\<close> over the pairs. The other branch calls
  \<^verbatim>\<open>process_exception\<close>, which only logs (logging is not part of the model).
\<close>

fun collect_results ::
  "dataframe \<Rightarrow> (dataframe option \<times> string option) list \<Rightarrow> dataframe" where
  "collect_results result_container [] = result_container"
| "collect_results result_container ((process_result, processing_exception) # rest) =
     (case process_result of
        Some r \<Rightarrow>
          (if r \<noteq> [] then collect_results (add_result_to_container r result_container) rest
           else collect_results result_container rest)
      | None \<Rightarrow> collect_results result_container rest)"

text \<open>The value of \<^verbatim>\<open>result_container\<close> when the loop of \<^verbatim>\<open>process_files\<close> ends:
  the batch-level table.\<close>

definition batch_table :: "(path \<Rightarrow> exn + bytes) \<Rightarrow> path list \<Rightarrow> dataframe" where
  "batch_table read files = collect_results [] (yield_processing_results read files)"

text \<open>\<^verbatim>\<open>Path(tmp_dir).joinpath(file_name)\<close> for the directory that
  \<^verbatim>\<open>tempfile.TemporaryDirectory\<close> gives (absolute, no trailing slash) and a name
  without a slash.\<close>

definition joinpath :: "path \<Rightarrow> string \<Rightarrow> path" where
  "joinpath dir_path file_name = dir_path @ ''/'' @ file_name"

text \<open>
  \<^verbatim>\<open>FileProcessor.generate_temp_file_path\<close>: the \<^verbatim>\<open>while True\<close> loop.
  \<open>uuid4 k\<close> is the text of the \<open>k\<close>-th identifier that \<^verbatim>\<open>uuid.uuid4()\<close> draws
  in this call; a path exists when the disk holds a file there. The loop ends at the
  first identifier whose path does not exist; when there is none the value is \<open>None\<close>.
\<close>

partial_function (option) generate_temp_file_path ::
  "(nat \<Rightarrow> string) \<Rightarrow> disk \<Rightarrow> path \<Rightarrow> nat \<Rightarrow> path option" where
  "generate_temp_file_path uuid4 d tmp_dir k =
     (if joinpath tmp_dir (uuid4 k) \<notin> dom d then Some (joinpath tmp_dir (uuid4 k))
      else generate_temp_file_path uuid4 d tmp_dir (Suc k))"

text \<open>
  What a worker process meets from outside: the contents of the files it reads, the
  identifiers it draws, and whether \<^verbatim>\<open>to_feather\<close> raises for a path and a table
  (\<open>None\<close>: it writes the file).
\<close>

record env =
  env_read :: "path \<Rightarrow> exn + bytes"
  env_uuid4 :: "nat \<Rightarrow> string"
  env_to_feather :: "path \<Rightarrow> dataframe \<Rightarrow> exn option"

text \<open>\<^verbatim>\<open>FileProcessor.write_results\<close>; a write that raises leaves the disk as it
  was.\<close>

definition write_results :: "env \<Rightarrow> dataframe \<Rightarrow> path \<Rightarrow> disk \<Rightarrow> exn + disk" where
  "write_results w result_container file_path d =
     (case env_to_feather w file_path result_container of
        Some e \<Rightarrow> Inl e
      | None \<Rightarrow> Inr (d(file_path \<mapsto> result_container)))"

text \<open>
  The \<^verbatim>\<open>try\<close> block of \<^verbatim>\<open>FileProcessor.process_files\<close>: \<open>Inl\<close> is an exception
  that leaves the block, \<open>None\<close> a block that never ends.
\<close>

definition process_files_try ::
  "env \<Rightarrow> disk \<Rightarrow> path \<Rightarrow> path list \<Rightarrow> (exn + (path option \<times> string option) \<times> disk) option" where
  "process_files_try w d tmp_dir files =
     (let result_container = batch_table (env_read w) files in
      if result_container \<noteq> [] then
        (case generate_temp_file_path (env_uuid4 w) d tmp_dir 0 of
           None \<Rightarrow> None
         | Some file_path \<Rightarrow>
             (case write_results w result_container file_path d of
                Inl e \<Rightarrow> Some (Inl e)
              | Inr d' \<Rightarrow> Some (Inr ((Some file_path, None), d'))))
      else Some (Inr ((None, None), d)))"

text \<open>
  \<^verbatim>\<open>FileProcessor.process_files\<close>: the block with its
  \<^verbatim>\<open>except Exception\<close> handler, which returns \<^verbatim>\<open>(None, traceback)\<close>. The result is
  the returned pair and the disk after the call.
\<close>

definition process_files ::
  "env \<Rightarrow> disk \<Rightarrow> path \<Rightarrow> path list \<Rightarrow> ((path option \<times> string option) \<times> disk) option" where
  "process_files w d tmp_dir files =
     (case process_files_try w d tmp_dir files of
        None \<Rightarrow> None
      | Some (Inl e) \<Rightarrow> Some ((None, Some (format_exc e)), d)
      | Some (Inr r) \<Rightarrow> Some r)"

section \<open>Result Store and Collector\<close>

text \<open>
  \<^verbatim>\<open>save_results\<close>: when the artifact exists, the store becomes the old store
  followed by the artifact, or the artifact alone when there was no store; otherwise the
  function only prints a message.
\<close>

definition save_results :: "path \<Rightarrow> disk \<Rightarrow> disk" where
  "save_results file_path d =
     (case d file_path of
        Some artifact \<Rightarrow>
          (case d RESULTS_DF of
             Some store \<Rightarrow> d(RESULTS_DF \<mapsto> store @ artifact)
           | None \<Rightarrow> d(RESULTS_DF \<mapsto> artifact))
      | None \<Rightarrow> d)"

text \<open>The first statement of the main program:
  \<^verbatim>\<open>if RESULTS_DF.exists(): RESULTS_DF.unlink()\<close>.\<close>

definition reset_results :: "disk \<Rightarrow> disk" where
  "reset_results d = (if RESULTS_DF \<in> dom d then d(RESULTS_DF := None) else d)"

text \<open>
  The body of the main program's loop over the completed futures, for the pair a future
  holds: an artifact path is merged and the artifact is unlinked, otherwise the text of
  the exception (if any) is printed.
\<close>

definition collect_future :: "path option \<times> string option \<Rightarrow> disk \<Rightarrow> disk" where
  "collect_future r d =
     (case r of
        (Some file_path, future_exception) \<Rightarrow> (save_results file_path d)(file_path := None)
      | (None, future_exception) \<Rightarrow> d)"

text \<open>
  The states of a run. A state is the disk and the pairs of the batches that have
  completed and are not collected yet. A run starts by resetting the store; a worker
  completes a batch (its call of \<^verbatim>\<open>process_files\<close> is one step); the main program
  collects any one of the completed futures.
\<close>

record run_state =
  run_disk :: disk
  run_futures :: "(path option \<times> string option) list"

inductive reachable :: "path \<Rightarrow> run_state \<Rightarrow> bool" for tmp_dir :: path where
  start: "reachable tmp_dir \<lparr>run_disk = reset_results d, run_futures = []\<rparr>"
| batch_done:
    "reachable tmp_dir s \<Longrightarrow> process_files w (run_disk s) tmp_dir files = Some (r, d') \<Longrightarrow>
     reachable tmp_dir \<lparr>run_disk = d', run_futures = run_futures s @ [r]\<rparr>"
| collected:
    "reachable tmp_dir s \<Longrightarrow> i < length (run_futures s) \<Longrightarrow>
     reachable tmp_dir
       \<lparr>run_disk = collect_future (run_futures s ! i) (run_disk s),
        run_futures = take i (run_futures s) @ drop (Suc i) (run_futures s)\<rparr>"

section \<open>Reporter\<close>

text \<open>
  \<^verbatim>\<open>groupby(key).size()\<close>: one row per key, the keys in ascending order, with the
  number of rows that have the key.
\<close>

definition groupby_size :: "string list \<Rightarrow> (string \<times> nat) list" where
  "groupby_size keys = map (\<lambda>k. (k, count_list keys k)) (sort (remdups keys))"

text \<open>
  \<^verbatim>\<open>sort_values('Count',ascending=False)\<close> is pandas' sort with its default
  algorithm, which fixes no order among equal counts; the Reporter takes it as the
  parameter \<open>sort_values\<close>, of which only this contract is known: the rows are kept and
  the counts descend.
\<close>

definition sorts_by_count_desc ::
  "((string \<times> nat) list \<Rightarrow> (string \<times> nat) list) \<Rightarrow> bool" where
  "sorts_by_count_desc sort_values \<longleftrightarrow>
     (\<forall>xs. mset (sort_values xs) = mset xs
        \<and> sorted_wrt (\<lambda>a b. snd a \<ge> snd b) (sort_values xs))"

text \<open>One sort that meets the contract: equal counts keep their order.\<close>

definition sort_values_stable :: "(string \<times> nat) list \<Rightarrow> (string \<times> nat) list" where
  "sort_values_stable xs = rev (sort_key snd (rev xs))"

text \<open>
  What \<^verbatim>\<open>provide_output\<close> prints: the message that nothing was found, or the
  summary with the number of rows, the number of distinct values of
  \<^verbatim>\<open>Filepath\<close>, the table of the top file names and the column of counts per
  \<^verbatim>\<open>Filepath\<close> that \<^verbatim>\<open>describe()\<close> summarises.
\<close>

datatype report =
  NoSqlFound
| Summary (n_statements: nat) (n_files: nat) (top_filenames: "(string \<times> nat) list")
    (described_counts: "nat list")

definition filename_freqs ::
  "((string \<times> nat) list \<Rightarrow> (string \<times> nat) list) \<Rightarrow> dataframe \<Rightarrow> (string \<times> nat) list" where
  "filename_freqs sort_values df =
     (let freqs = sort_values (groupby_size (map (\<lambda>(filepath, sql). path_name filepath) df)) in
      if length freqs \<ge> 10 then take 10 freqs else freqs)"

definition provide_output ::
  "((string \<times> nat) list \<Rightarrow> (string \<times> nat) list) \<Rightarrow> disk \<Rightarrow> report \<times> disk" where
  "provide_output sort_values d =
     (case d RESULTS_DF of
        Some df \<Rightarrow>
          (Summary (length df) (length (remdups (map fst df)))
             (filename_freqs sort_values df)
             (map snd (groupby_size (map fst df))), d)
      | None \<Rightarrow> (NoSqlFound, d))"

section \<open>Observations used in the properties\<close>

text \<open>The rows of the result store: none when the file is absent.\<close>

definition store_rows :: "disk \<Rightarrow> dataframe" where
  "store_rows d = (case d RESULTS_DF of None \<Rightarrow> [] | Some df \<Rightarrow> df)"

text \<open>
  A table of 43 rows from 15 distinct files: two files of different directories share the
  file name \<^verbatim>\<open>x.sql\<close> and have two rows each, the thirteen others have three rows
  each.
\<close>

definition shared_name_store :: dataframe where
  "shared_name_store =
     concat (map (\<lambda>(p, k). replicate k (p, ''SELECT 1 FROM T;''))
       [(''a/x.sql'', 2), (''b/x.sql'', 2), (''s/f01.sql'', 3), (''s/f02.sql'', 3),
        (''s/f03.sql'', 3), (''s/f04.sql'', 3), (''s/f05.sql'', 3), (''s/f06.sql'', 3),
        (''s/f07.sql'', 3), (''s/f08.sql'', 3), (''s/f09.sql'', 3), (''s/f10.sql'', 3),
        (''s/f11.sql'', 3), (''s/f12.sql'', 3), (''s/f13.sql'', 3)])"

text \<open>
  A table of 30 rows from 15 files with 15 distinct file names: five files with three
  rows each, five with two rows each and five with one row each.
\<close>

definition fifteen_files_store :: dataframe where
  "fifteen_files_store =
     concat (map (\<lambda>(p, k). replicate k (p, ''SELECT 1 FROM T;''))
       [(''s/f01.sql'', 3), (''s/f02.sql'', 3), (''s/f03.sql'', 3), (''s/f04.sql'', 3),
        (''s/f05.sql'', 3), (''s/f06.sql'', 2), (''s/f07.sql'', 2), (''s/f08.sql'', 2),
        (''s/f09.sql'', 2), (''s/f10.sql'', 2), (''s/f11.sql'', 1), (''s/f12.sql'', 1),
        (''s/f13.sql'', 1), (''s/f14.sql'', 1), (''s/f15.sql'', 1)])"

section \<open>Properties of the Enumerator\<close>

lemma path_suffix_of_name:
  "path_name f = path_name g \<Longrightarrow> path_suffix f = path_suffix g"
  by (simp add: path_suffix_def)

lemma yield_files_set:
  "set (yield_files is_dir target_exts globbed) =
     {f \<in> set globbed. \<not> is_dir f \<and> ''.git'' \<notin> set (path_parts f) \<and>
        (case target_exts of None \<Rightarrow> True | Some exts \<Rightarrow> path_suffix f \<in> set exts)}"
  by (induction globbed) (auto simp: REASONS_TO_SKIP_FILE_def split: option.splits)

lemma suffix_a_sql: "path_name f = ''a.sql'' \<Longrightarrow> path_suffix f = ''.sql''"
  by (simp add: path_suffix_def)

lemma suffix_a_txt: "path_name f = ''a.txt'' \<Longrightarrow> path_suffix f = ''.txt''"
  by (simp add: path_suffix_def)

lemma suffix_a_SQL: "path_name f = ''a.SQL'' \<Longrightarrow> path_suffix f = ''.SQL''"
  by (simp add: path_suffix_def)

text \<open>
  Claim C9. With the extension filter \<^verbatim>\<open>['.sql']\<close>, whatever the directory and
  whatever else it holds: every path the Enumerator yields is one of the globbed entries,
  is not a directory, has no \<^verbatim>\<open>.git\<close> part and has the suffix \<^verbatim>\<open>.sql\<close>
  exactly; an entry named \<^verbatim>\<open>a.txt\<close> or \<^verbatim>\<open>a.SQL\<close> is never yielded (the
  comparison of suffixes is case-sensitive); and an entry named \<^verbatim>\<open>a.sql\<close> that is a
  file outside version-control metadata is yielded.
\<close>

theorem yield_files_extension_filter:
  "(\<forall>f \<in> set (yield_files is_dir (Some [''.sql'']) globbed).
      f \<in> set globbed \<and> \<not> is_dir f \<and> ''.git'' \<notin> set (path_parts f) \<and> path_suffix f = ''.sql'')
   \<and> (\<forall>f. path_name f = ''a.txt'' \<or> path_name f = ''a.SQL'' \<longrightarrow>
          f \<notin> set (yield_files is_dir (Some [''.sql'']) globbed))
   \<and> (\<forall>f \<in> set globbed. path_name f = ''a.sql'' \<and> \<not> is_dir f \<and> ''.git'' \<notin> set (path_parts f) \<longrightarrow>
          f \<in> set (yield_files is_dir (Some [''.sql'']) globbed))"
  by (auto simp: yield_files_set dest: suffix_a_txt suffix_a_SQL suffix_a_sql)

theorem yield_files_extension_filter_witness:
  "path_name ''proj/a.sql'' = ''a.sql''
   \<and> path_name ''proj/a.txt'' = ''a.txt''
   \<and> path_name ''proj/a.SQL'' = ''a.SQL''
   \<and> ''.git'' \<notin> set (path_parts ''proj/a.sql'')
   \<and> ''proj/a.sql'' \<in> set (yield_files (\<lambda>p. False) (Some [''.sql''])
         [''proj/a.sql'', ''proj/a.txt'', ''proj/a.SQL''])
   \<and> ''proj/a.txt'' \<notin> set (yield_files (\<lambda>p. False) (Some [''.sql''])
         [''proj/a.sql'', ''proj/a.txt'', ''proj/a.SQL''])
   \<and> ''proj/a.SQL'' \<notin> set (yield_files (\<lambda>p. False) (Some [''.sql''])
         [''proj/a.sql'', ''proj/a.txt'', ''proj/a.SQL''])
   \<and> yield_files (\<lambda>p. False) (Some [''.sql''])
         [''proj/a.sql'', ''proj/a.txt'', ''proj/a.SQL''] = [''proj/a.sql'']"
proof -
  let ?g = "[''proj/a.sql'', ''proj/a.txt'', ''proj/a.SQL'']"
  have n1: "path_name ''proj/a.sql'' = ''a.sql''"
    and n2: "path_name ''proj/a.txt'' = ''a.txt''"
    and n3: "path_name ''proj/a.SQL'' = ''a.SQL''"
    by (simp_all add: path_name_def path_tail_def)
  have g: "''.git'' \<notin> set (path_parts ''proj/a.sql'')"
    by (simp add: path_parts_def path_root_def path_tail_def)
  note t = yield_files_extension_filter [of "\<lambda>p. False" ?g]
  note t2 = t [THEN conjunct2, THEN conjunct1, rule_format]
  note t3 = t [THEN conjunct2, THEN conjunct2, rule_format]
  have a: "''proj/a.sql'' \<in> set (yield_files (\<lambda>p. False) (Some [''.sql'']) ?g)"
    by (rule t3 [of "''proj/a.sql''"]) (simp_all only: n1 g list.set_intros simp_thms)
  have b: "''proj/a.txt'' \<notin> set (yield_files (\<lambda>p. False) (Some [''.sql'']) ?g)"
    by (rule t2 [of "''proj/a.txt''"]) (simp only: n2 simp_thms)
  have c: "''proj/a.SQL'' \<notin> set (yield_files (\<lambda>p. False) (Some [''.sql'']) ?g)"
    by (rule t2 [of "''proj/a.SQL''"]) (simp only: n3 simp_thms)
  have e: "yield_files (\<lambda>p. False) (Some [''.sql'']) ?g = [''proj/a.sql'']"
    by (simp add: REASONS_TO_SKIP_FILE_def path_parts_def path_root_def path_tail_def
        path_suffix_def path_name_def)
  show ?thesis by (intro conjI n1 n2 n3 g a b c e)
qed

section \<open>Properties of the Batcher\<close>

lemma concat_batches_loop: "concat (batches_loop n files xs) = files @ xs"
  by (induction xs arbitrary: files) (auto simp: Let_def)

lemma batches_loop_sizes:
  "length files < n \<Longrightarrow> b \<in> set (batches_loop n files xs) \<Longrightarrow> b \<noteq> [] \<and> length b \<le> n"
proof (induction xs arbitrary: files)
  case Nil
  then show ?case by (auto split: if_splits)
next
  case (Cons x xs)
  show ?case
  proof (cases "length (files @ [x]) \<ge> n")
    case True
    with Cons.prems have "b = files @ [x] \<or> b \<in> set (batches_loop n [] xs)"
      by (simp add: Let_def)
    moreover have "0 < n" using Cons.prems(1) by simp
    ultimately show ?thesis
      using Cons.IH [of "[]"] Cons.prems(1) True by auto
  next
    case False
    with Cons.prems have "b \<in> set (batches_loop n (files @ [x]) xs)"
      by (simp add: Let_def)
    with Cons.IH [of "files @ [x]"] False show ?thesis by simp
  qed
qed

lemma batches_loop_full:
  "length files < n \<Longrightarrow> b \<in> set (butlast (batches_loop n files xs)) \<Longrightarrow> length b = n"
proof (induction xs arbitrary: files)
  case Nil
  then show ?case by (auto split: if_splits)
next
  case (Cons x xs)
  show ?case
  proof (cases "length (files @ [x]) \<ge> n")
    case True
    with Cons.prems have "b \<in> set (butlast ((files @ [x]) # batches_loop n [] xs))"
      by (simp add: Let_def)
    then have "b = files @ [x] \<or> b \<in> set (butlast (batches_loop n [] xs))"
      by (auto split: if_splits)
    moreover have "0 < n" using Cons.prems(1) by simp
    ultimately show ?thesis
      using Cons.IH [of "[]"] Cons.prems(1) True by auto
  next
    case False
    with Cons.prems have "b \<in> set (butlast (batches_loop n (files @ [x]) xs))"
      by (simp add: Let_def)
    with Cons.IH [of "files @ [x]"] False show ?thesis by simp
  qed
qed

lemma sum_lengths_const:
  "(\<And>b. b \<in> set bs \<Longrightarrow> length b = n) \<Longrightarrow> sum_list (map length bs) = n * length bs"
  by (induction bs) auto

lemma ceil_div_last:
  fixes n k l :: nat
  assumes "0 < l" "l \<le> n"
  shows "(n * k + l + n - 1) div n = Suc k"
    and "(n * k + l) mod n = (if l = n then 0 else l)"
proof -
  have n: "0 < n" using assms by simp
  have "n * k + l + n - 1 = (l - 1) + Suc k * n" using assms by (simp add: algebra_simps)
  moreover have "l - 1 < n" using assms by simp
  ultimately have "(n * k + l + n - 1) div n = Suc k + (l - 1) div n"
    using n by (simp only: div_mult_self1)
  then show "(n * k + l + n - 1) div n = Suc k"
    using \<open>l - 1 < n\<close> by simp
  show "(n * k + l) mod n = (if l = n then 0 else l)"
    using assms by auto
qed

text \<open>
  Claim C1. For a batch size \<open>n > 0\<close> and a file sequence \<open>xs\<close> of length \<open>N\<close>,
  the Batcher emits \<open>ceil (N / n)\<close> batches (written \<open>(N + n - 1) div n\<close>); every batch
  but the last has exactly \<open>n\<close> elements; the last has \<open>N mod n\<close> elements, or \<open>n\<close>
  when \<open>N\<close> is a multiple of \<open>n\<close>; the concatenation of the batches is the input
  sequence, so each file appears exactly once; and an empty input emits nothing.
\<close>

theorem yield_file_batches_partition:
  "0 < n \<Longrightarrow>
     length (yield_file_batches n xs) = (length xs + n - 1) div n
     \<and> (\<forall>i. Suc i < length (yield_file_batches n xs) \<longrightarrow>
            length (yield_file_batches n xs ! i) = n)
     \<and> (yield_file_batches n xs \<noteq> [] \<longrightarrow>
            length (last (yield_file_batches n xs)) =
              (if length xs mod n = 0 then n else length xs mod n))
     \<and> concat (yield_file_batches n xs) = xs
     \<and> mset (concat (yield_file_batches n xs)) = mset xs
     \<and> (xs = [] \<longrightarrow> yield_file_batches n xs = [])"
proof -
  assume n: "0 < n"
  define bs where "bs = yield_file_batches n xs"
  have bs: "bs = batches_loop n [] xs"
    by (simp add: bs_def yield_file_batches_def)
  have c: "concat bs = xs"
    by (simp add: bs concat_batches_loop)
  have full: "\<And>b. b \<in> set (butlast bs) \<Longrightarrow> length b = n"
    using batches_loop_full [of "[]" n _ xs] n by (simp add: bs)
  have N: "length xs = sum_list (map length bs)"
    using c by (metis length_concat)
  have nth: "\<forall>i. Suc i < length bs \<longrightarrow> length (bs ! i) = n"
  proof (intro allI impI)
    fix i assume i: "Suc i < length bs"
    then have "i < length (butlast bs)" by simp
    then have "butlast bs ! i \<in> set (butlast bs)" by (rule nth_mem)
    moreover have "butlast bs ! i = bs ! i" using i by (simp add: nth_butlast)
    ultimately show "length (bs ! i) = n" using full by simp
  qed
  have emp: "xs = [] \<longrightarrow> bs = []"
    by (simp add: bs)
  have cnt: "length bs = (length xs + n - 1) div n
      \<and> (bs \<noteq> [] \<longrightarrow> length (last bs) = (if length xs mod n = 0 then n else length xs mod n))"
  proof (cases "bs = []")
    case True
    then have "xs = []" using c by simp
    with True n show ?thesis by simp
  next
    case False
    then have split: "bs = butlast bs @ [last bs]" by simp
    have "last bs \<in> set bs" using False by simp
    then have l: "0 < length (last bs)" "length (last bs) \<le> n"
      using batches_loop_sizes [of "[]" n "last bs" xs] n by (simp_all add: bs)
    have "sum_list (map length bs) = sum_list (map length (butlast bs)) + length (last bs)"
      by (subst split) simp
    also have "sum_list (map length (butlast bs)) = n * length (butlast bs)"
      using full by (rule sum_lengths_const)
    finally have Nk: "length xs = n * (length bs - 1) + length (last bs)"
      using N by simp
    have "(length xs + n - 1) div n = Suc (length bs - 1)"
      using ceil_div_last(1) [OF l, of "length bs - 1"] Nk by simp
    moreover have "length xs mod n = (if length (last bs) = n then 0 else length (last bs))"
      using ceil_div_last(2) [OF l, of "length bs - 1"] Nk by simp
    ultimately show ?thesis using False l by (auto split: if_splits)
  qed
  show ?thesis
    unfolding bs_def [symmetric] using cnt nth c emp by simp
qed

theorem yield_file_batches_partition_witness:
  "(0::nat) < 2
   \<and> 0 < NUM_FILES_IN_BATCH
   \<and> concat (yield_file_batches NUM_FILES_IN_BATCH [''a'', ''b'', ''c'']) = [''a'', ''b'', ''c'']
   \<and> yield_file_batches 2 [''a'', ''b'', ''c'', ''d'', ''e''] = [[''a'', ''b''], [''c'', ''d''], [''e'']]
   \<and> length (yield_file_batches 2 [''a'', ''b'', ''c'', ''d'', ''e'']) = (5 + 2 - 1) div 2
   \<and> length (last (yield_file_batches 2 [''a'', ''b'', ''c'', ''d'', ''e''])) = 1
   \<and> concat (yield_file_batches 2 [''a'', ''b'', ''c'', ''d'', ''e'']) = [''a'', ''b'', ''c'', ''d'', ''e'']"
proof -
  have h: "(0::nat) < 2" by simp
  have e: "yield_file_batches 2 [''a'', ''b'', ''c'', ''d'', ''e''] = [[''a'', ''b''], [''c'', ''d''], [''e'']]"
    by (simp add: yield_file_batches_def Let_def)
  note t = yield_file_batches_partition [OF h, of "[''a'', ''b'', ''c'', ''d'', ''e'']"]
  have l: "length (yield_file_batches 2 [''a'', ''b'', ''c'', ''d'', ''e'']) = (5 + 2 - 1) div 2"
    using t [THEN conjunct1] by simp
  have c: "concat (yield_file_batches 2 [''a'', ''b'', ''c'', ''d'', ''e'']) = [''a'', ''b'', ''c'', ''d'', ''e'']"
    using t by (simp only:)
  have la: "length (last (yield_file_batches 2 [''a'', ''b'', ''c'', ''d'', ''e''])) = 1"
    using t e by simp
  have hn: "0 < NUM_FILES_IN_BATCH" by (simp add: NUM_FILES_IN_BATCH_def)
  have cn: "concat (yield_file_batches NUM_FILES_IN_BATCH [''a'', ''b'', ''c'']) = [''a'', ''b'', ''c'']"
    using yield_file_batches_partition [OF hn, of "[''a'', ''b'', ''c'']"] by (simp only:)
  show ?thesis by (intro conjI h hn cn e l c la)
qed

section \<open>Properties of the Extractor\<close>

lemma of_char_lt_256: "(of_char c :: nat) < 256"
proof -
  have "(of_char c :: nat) = of_char c mod 256" by (rule of_char_mod_256 [symmetric])
  also have "\<dots> < 256" by simp
  finally show ?thesis .
qed

lemma hexdigits_printable:
  "k < 16 \<Longrightarrow> 32 \<le> (of_char (hexdigits ! k) :: nat) \<and> (of_char (hexdigits ! k) :: nat) < 127"
proof -
  assume "k < 16"
  then have "k = 0 \<or> k = 1 \<or> k = 2 \<or> k = 3 \<or> k = 4 \<or> k = 5 \<or> k = 6 \<or> k = 7
      \<or> k = 8 \<or> k = 9 \<or> k = 10 \<or> k = 11 \<or> k = 12 \<or> k = 13 \<or> k = 14 \<or> k = 15"
    by arith
  then show ?thesis
    by (elim disjE) (simp_all add: hexdigits_def)
qed

lemma repr_byte_printable:
  assumes q: "32 \<le> (of_char q :: nat)" "(of_char q :: nat) < 127"
    and c: "x \<in> set (repr_byte q c)"
  shows "32 \<le> (of_char x :: nat) \<and> (of_char x :: nat) < 127"
proof -
  have d: "(of_char c :: nat) div 16 < 16" using of_char_lt_256 [of c] by arith
  have m: "(of_char c :: nat) mod 16 < 16" by simp
  show ?thesis
    using c q hexdigits_printable [OF d] hexdigits_printable [OF m]
    by (auto simp: repr_byte_def split: if_splits)
qed

lemma bytes_quote_printable:
  "32 \<le> (of_char (bytes_quote b) :: nat) \<and> (of_char (bytes_quote b) :: nat) < 127"
  by (simp add: bytes_quote_def)

lemma bytes_str_printable:
  "x \<in> set (bytes_str b) \<Longrightarrow> 32 \<le> (of_char x :: nat) \<and> (of_char x :: nat) < 127"
  using bytes_quote_printable [of b] repr_byte_printable [of "bytes_quote b" x]
  by (auto simp: bytes_str_def Let_def)

lemma upper_char_not_lower:
  "\<not> (97 \<le> (of_char (upper_char c) :: nat) \<and> (of_char (upper_char c) :: nat) \<le> 122)"
proof (cases "97 \<le> (of_char c :: nat) \<and> (of_char c :: nat) \<le> 122")
  case True
  then have "(of_char (upper_char c) :: nat) = (of_char c - 32) mod 256"
    by (simp add: upper_char_def)
  also have "\<dots> = of_char c - 32"
  proof (rule mod_less)
    show "(of_char c :: nat) - 32 < 256" using of_char_lt_256 [of c] by arith
  qed
  finally show ?thesis using True by arith
next
  case False
  then have "upper_char c = c" by (simp only: upper_char_def if_False)
  with False show ?thesis by (simp only: simp_thms)
qed

lemma finditer_from_substring:
  "m \<in> set (finditer_from pat k s) \<Longrightarrow> \<exists>pre post. s = pre @ m @ post"
proof (induction pat k s rule: finditer_from.induct)
  case (1 pat skip)
  then show ?case by simp
next
  case (2 pat skip c s)
  then obtain pre post where "s = pre @ m @ post" by auto
  then have "c # s = (c # pre) @ m @ post" by simp
  then show ?case by blast
next
  case (3 pat c s)
  show ?case
  proof (cases "match_here pat (c # s)")
    case None
    with 3 obtain pre post where "s = pre @ m @ post" by auto
    then have "c # s = (c # pre) @ m @ post" by simp
    then show ?thesis by blast
  next
    case (Some k)
    with "3.prems" have "m = take k (c # s) \<or> m \<in> set (finditer_from pat (k - 1) s)"
      by simp
    then show ?thesis
    proof
      assume "m = take k (c # s)"
      then have "c # s = [] @ m @ drop k (c # s)" by simp
      then show ?thesis by blast
    next
      assume "m \<in> set (finditer_from pat (k - 1) s)"
      with "3.IH"(2) [OF Some] obtain pre post where "s = pre @ m @ post" by auto
      then have "c # s = (c # pre) @ m @ post" by simp
      then show ?thesis by blast
    qed
  qed
qed

text \<open>
  Claim C5. Whatever bytes the file holds (valid UTF-8 or not), \<^verbatim>\<open>process_file\<close>
  returns a table and raises nothing: its rows are the matches of the pattern over the
  upper-cased text of the bytes, each with the path of the file; that text is made of
  printable ASCII characters only (a byte that is no printable character is replaced by
  an escape sequence), and holds no lower-case letter; every match is a contiguous piece
  of that text; and when there is no match the table is empty.
\<close>

theorem process_file_any_bytes:
  "read file = Inr content \<Longrightarrow>
     process_file read file =
       Inr (map (\<lambda>m. (file, m)) (finditer SQL_PATTERN (upper (bytes_str content))))
     \<and> (\<forall>x \<in> set (bytes_str content). 32 \<le> (of_char x :: nat) \<and> (of_char x :: nat) < 127)
     \<and> (\<forall>x \<in> set (upper (bytes_str content)).
           \<not> (97 \<le> (of_char x :: nat) \<and> (of_char x :: nat) \<le> 122))
     \<and> (\<forall>m \<in> set (finditer SQL_PATTERN (upper (bytes_str content))).
           \<exists>pre post. upper (bytes_str content) = pre @ m @ post)
     \<and> (finditer SQL_PATTERN (upper (bytes_str content)) = [] \<longrightarrow>
           process_file read file = Inr [])"
proof -
  assume r: "read file = Inr content"
  have a: "process_file read file =
       Inr (map (\<lambda>m. (file, m)) (finditer SQL_PATTERN (upper (bytes_str content))))"
    using r by (simp add: process_file_def)
  have b: "\<forall>x \<in> set (bytes_str content). 32 \<le> (of_char x :: nat) \<and> (of_char x :: nat) < 127"
    using bytes_str_printable by blast
  have c: "\<forall>x \<in> set (upper (bytes_str content)).
           \<not> (97 \<le> (of_char x :: nat) \<and> (of_char x :: nat) \<le> 122)"
    using upper_char_not_lower by (auto simp: upper_def)
  have d: "\<forall>m \<in> set (finditer SQL_PATTERN (upper (bytes_str content))).
           \<exists>pre post. upper (bytes_str content) = pre @ m @ post"
    using finditer_from_substring by (simp add: finditer_def)
  have e: "finditer SQL_PATTERN (upper (bytes_str content)) = [] \<longrightarrow>
           process_file read file = Inr []"
    using a by simp
  show ?thesis by (intro conjI a b c d e)
qed

theorem process_file_any_bytes_witness:
  "process_file (\<lambda>p. Inr ([CHR 0xFF, CHR 0xFE, CHR 0x0A] @ ''select a from t;'')) ''f.sql''
     = Inr [(''f.sql'', ''SELECT A FROM T;'')]
   \<and> upper (bytes_str ([CHR 0xFF, CHR 0xFE, CHR 0x0A] @ ''select a from t;''))
     = [CHR ''B'', CHR 0x27, CHR 0x5C] @ ''XFF'' @ [CHR 0x5C] @ ''XFE'' @ [CHR 0x5C]
        @ ''NSELECT A FROM T;'' @ [CHR 0x27]
   \<and> process_file (\<lambda>p. Inr [CHR 0xC3, CHR 0x28]) ''f.sql'' = Inr []"
proof -
  let ?b = "[CHR 0xFF, CHR 0xFE, CHR 0x0A] @ ''select a from t;''"
  have u: "upper (bytes_str ?b)
     = [CHR ''B'', CHR 0x27, CHR 0x5C] @ ''XFF'' @ [CHR 0x5C] @ ''XFE'' @ [CHR 0x5C]
        @ ''NSELECT A FROM T;'' @ [CHR 0x27]"
    by code_simp
  have f: "finditer SQL_PATTERN (upper (bytes_str ?b)) = [''SELECT A FROM T;'']"
    by code_simp
  have g: "finditer SQL_PATTERN (upper (bytes_str [CHR 0xC3, CHR 0x28])) = []"
    by code_simp
  have a: "process_file (\<lambda>p. Inr ?b) ''f.sql'' = Inr [(''f.sql'', ''SELECT A FROM T;'')]"
    using process_file_any_bytes [of "\<lambda>p. Inr ?b" "''f.sql''" ?b, THEN conjunct1]
    by (simp only: f list.map)
  have b: "process_file (\<lambda>p. Inr [CHR 0xC3, CHR 0x28]) ''f.sql'' = Inr []"
    using process_file_any_bytes [of "\<lambda>p. Inr [CHR 0xC3, CHR 0x28]" "''f.sql''" "[CHR 0xC3, CHR 0x28]",
        THEN conjunct1]
    by (simp only: g list.map)
  show ?thesis by (intro conjI a u b)
qed

text \<open>
  Claim C6. For a file that holds the bytes
  \<^verbatim>\<open>select a from t; SELECT b FROM u WHERE x;\<close> the Extractor gives exactly two
  matches, \<^verbatim>\<open>SELECT A FROM T;\<close> and \<^verbatim>\<open>SELECT B FROM U WHERE X;\<close>, in this
  order: the upper-cased statements, each ending at its semicolon.
\<close>

theorem process_file_two_statements:
  "finditer SQL_PATTERN (upper (bytes_str ''select a from t; SELECT b FROM u WHERE x;''))
     = [''SELECT A FROM T;'', ''SELECT B FROM U WHERE X;'']
   \<and> process_file (\<lambda>p. Inr ''select a from t; SELECT b FROM u WHERE x;'') file
     = Inr [(file, ''SELECT A FROM T;''), (file, ''SELECT B FROM U WHERE X;'')]"
proof -
  have f: "finditer SQL_PATTERN (upper (bytes_str ''select a from t; SELECT b FROM u WHERE x;''))
     = [''SELECT A FROM T;'', ''SELECT B FROM U WHERE X;'']"
    by code_simp
  have "process_file (\<lambda>p. Inr ''select a from t; SELECT b FROM u WHERE x;'') file
     = Inr (map (\<lambda>m. (file, m))
         (finditer SQL_PATTERN (upper (bytes_str ''select a from t; SELECT b FROM u WHERE x;''))))"
    by (simp only: process_file_def sum.case Let_def)
  then have p: "process_file (\<lambda>p. Inr ''select a from t; SELECT b FROM u WHERE x;'') file
     = Inr [(file, ''SELECT A FROM T;''), (file, ''SELECT B FROM U WHERE X;'')]"
    by (simp only: f list.map)
  show ?thesis by (intro conjI f p)
qed

section \<open>Properties of the Batch Processor\<close>

text \<open>The rows a file adds to the batch-level table: its matches when it can be read,
  nothing when reading it raises.\<close>

lemma collect_results_eq:
  "collect_results acc (yield_processing_results read files) =
     concat (rev (map (\<lambda>f. case process_file read f of Inl e \<Rightarrow> [] | Inr r \<Rightarrow> r) files)) @ acc"
  by (induction files arbitrary: acc)
    (auto simp: add_result_to_container_def split: sum.splits)

lemma batch_table_eq:
  "batch_table read files =
     concat (rev (map (\<lambda>f. case process_file read f of Inl e \<Rightarrow> [] | Inr r \<Rightarrow> r) files))"
  by (simp add: batch_table_def collect_results_eq)

lemma process_file_cases:
  "process_file read f =
     (case read f of
        Inl e \<Rightarrow> Inl e
      | Inr content \<Rightarrow> Inr (map (\<lambda>m. (f, m)) (finditer SQL_PATTERN (upper (bytes_str content)))))"
  by (cases "read f") (simp_all add: process_file_def Let_def)

lemma mset_concat_rev: "mset (concat (rev xss)) = mset (concat xss)"
  by (induction xss) auto

lemma batch_table_mset:
  "mset (batch_table read files) =
     mset (concat (map (\<lambda>f. case read f of
                             Inl e \<Rightarrow> []
                           | Inr content \<Rightarrow>
                               map (\<lambda>m. (f, m)) (finditer SQL_PATTERN (upper (bytes_str content))))
                        files))"
proof -
  have "(\<lambda>f. case process_file read f of Inl e \<Rightarrow> [] | Inr r \<Rightarrow> r) =
        (\<lambda>f. case read f of
                Inl e \<Rightarrow> []
              | Inr content \<Rightarrow> map (\<lambda>m. (f, m)) (finditer SQL_PATTERN (upper (bytes_str content))))"
    by (rule ext) (simp add: process_file_cases split: sum.splits)
  then show ?thesis
    by (simp only: batch_table_eq mset_concat_rev)
qed

lemma generate_temp_file_path_fresh:
  "joinpath tmp_dir (uuid4 (k + j)) \<notin> dom d \<Longrightarrow>
   \<exists>p. generate_temp_file_path uuid4 d tmp_dir k = Some p \<and> p \<notin> dom d
        \<and> (\<exists>i. p = joinpath tmp_dir (uuid4 i))"
proof (induction j arbitrary: k)
  case 0
  then show ?case
    by (subst generate_temp_file_path.simps) auto
next
  case (Suc j)
  show ?case
  proof (cases "joinpath tmp_dir (uuid4 k) \<notin> dom d")
    case True
    then show ?thesis
      by (subst generate_temp_file_path.simps) auto
  next
    case False
    from Suc.prems have "joinpath tmp_dir (uuid4 (Suc k + j)) \<notin> dom d" by simp
    from Suc.IH [OF this] False show ?thesis
      by (subst generate_temp_file_path.simps) auto
  qed
qed

lemma generate_temp_file_path_Some:
  assumes "generate_temp_file_path uuid4 d tmp_dir k = Some p"
  shows "p \<notin> dom d \<and> (\<exists>i. p = joinpath tmp_dir (uuid4 i))"
  by (rule generate_temp_file_path.raw_induct
      [where P = "\<lambda>uuid4 d tmp_dir k p. p \<notin> dom d \<and> (\<exists>i. p = joinpath tmp_dir (uuid4 i))",
       OF _ assms])
    (auto split: if_splits)

lemma process_files_cases:
  assumes fresh: "\<exists>k. joinpath tmp_dir (env_uuid4 w k) \<notin> dom d"
  shows "\<exists>r d'. process_files w d tmp_dir files = Some (r, d') \<and>
     ((batch_table (env_read w) files = [] \<and> r = (None, None) \<and> d' = d)
      \<or> (\<exists>p. batch_table (env_read w) files \<noteq> [] \<and> p \<notin> dom d
             \<and> env_to_feather w p (batch_table (env_read w) files) = None
             \<and> r = (Some p, None) \<and> d' = d(p \<mapsto> batch_table (env_read w) files))
      \<or> (\<exists>p e. batch_table (env_read w) files \<noteq> [] \<and> p \<notin> dom d
             \<and> env_to_feather w p (batch_table (env_read w) files) = Some e
             \<and> r = (None, Some (format_exc e)) \<and> d' = d))"
proof (cases "batch_table (env_read w) files = []")
  case True
  then show ?thesis
    by (simp add: process_files_def process_files_try_def)
next
  case False
  from fresh obtain k where "joinpath tmp_dir (env_uuid4 w (0 + k)) \<notin> dom d" by auto
  from generate_temp_file_path_fresh [of tmp_dir "env_uuid4 w" 0 k d, OF this]
  obtain p where p: "generate_temp_file_path (env_uuid4 w) d tmp_dir 0 = Some p" "p \<notin> dom d"
    by blast
  show ?thesis
  proof (cases "env_to_feather w p (batch_table (env_read w) files)")
    case None
    with False p show ?thesis
      by (simp add: process_files_def process_files_try_def write_results_def)
  next
    case (Some e)
    with False p show ?thesis
      by (auto simp: process_files_def process_files_try_def write_results_def)
  qed
qed

text \<open>
  Claim C3. \<^verbatim>\<open>process_files\<close> returns a pair for every temporary directory and every
  batch, provided the identifiers it draws reach a path that does not exist yet (the
  loop of \<^verbatim>\<open>generate_temp_file_path\<close> has no other exit). The pair is
  \<^verbatim>\<open>(None, None)\<close> when the batch-level table is empty; the path of the artifact and
  \<^verbatim>\<open>None\<close> when the table is not empty and is written, at a path that did not exist;
  \<^verbatim>\<open>None\<close> and the text of the exception when writing the table raises. An
  exception that leaves the \<^verbatim>\<open>try\<close> block is returned in the pair and never raised
  again.
\<close>

theorem process_files_always_returns:
  "\<exists>k. joinpath tmp_dir (env_uuid4 w k) \<notin> dom d \<Longrightarrow>
   (\<exists>r d'. process_files w d tmp_dir files = Some (r, d') \<and>
     ((batch_table (env_read w) files = [] \<and> r = (None, None) \<and> d' = d)
      \<or> (\<exists>p. batch_table (env_read w) files \<noteq> [] \<and> p \<notin> dom d
             \<and> env_to_feather w p (batch_table (env_read w) files) = None
             \<and> r = (Some p, None) \<and> d' = d(p \<mapsto> batch_table (env_read w) files))
      \<or> (\<exists>p e. batch_table (env_read w) files \<noteq> [] \<and> p \<notin> dom d
             \<and> env_to_feather w p (batch_table (env_read w) files) = Some e
             \<and> r = (None, Some (format_exc e)) \<and> d' = d)))
   \<and> (\<forall>e. process_files_try w d tmp_dir files = Some (Inl e) \<longrightarrow>
          process_files w d tmp_dir files = Some ((None, Some (format_exc e)), d))"
proof -
  assume fresh: "\<exists>k. joinpath tmp_dir (env_uuid4 w k) \<notin> dom d"
  have "\<forall>e. process_files_try w d tmp_dir files = Some (Inl e) \<longrightarrow>
          process_files w d tmp_dir files = Some ((None, Some (format_exc e)), d)"
    by (simp add: process_files_def)
  with process_files_cases [OF fresh, of files] show ?thesis by blast
qed


theorem process_files_always_returns_witness:
  "joinpath ''/tmp/t'' ''id0'' \<notin> dom (Map.empty :: disk)
   \<and> process_files
        \<lparr>env_read = (\<lambda>p. if p = ''a.sql'' then Inr ''select a from t;''
                           else Inl (PyException ''unreadable'')),
         env_uuid4 = (\<lambda>k. ''id0''), env_to_feather = (\<lambda>p t. None)\<rparr>
        Map.empty ''/tmp/t'' [''a.sql'']
      = Some ((Some ''/tmp/t/id0'', None), [''/tmp/t/id0'' \<mapsto> [(''a.sql'', ''SELECT A FROM T;'')]])
   \<and> process_files
        \<lparr>env_read = (\<lambda>p. if p = ''a.sql'' then Inr ''select a from t;''
                           else Inl (PyException ''unreadable'')),
         env_uuid4 = (\<lambda>k. ''id0''), env_to_feather = (\<lambda>p t. Some (PyException ''disk full''))\<rparr>
        Map.empty ''/tmp/t'' [''a.sql'']
      = Some ((None, Some ''disk full''), Map.empty)
   \<and> process_files
        \<lparr>env_read = (\<lambda>p. if p = ''a.sql'' then Inr ''select a from t;''
                           else Inl (PyException ''unreadable'')),
         env_uuid4 = (\<lambda>k. ''id0''), env_to_feather = (\<lambda>p t. None)\<rparr>
        Map.empty ''/tmp/t'' [''b.sql'']
      = Some ((None, None), Map.empty)"
proof -
  let ?read = "\<lambda>p. if p = ''a.sql'' then Inr ''select a from t;'' else Inl (PyException ''unreadable'')"
  let ?w = "\<lparr>env_read = ?read, env_uuid4 = (\<lambda>k. ''id0''), env_to_feather = (\<lambda>p t. None)\<rparr>"
  let ?w' = "\<lparr>env_read = ?read, env_uuid4 = (\<lambda>k. ''id0''),
             env_to_feather = (\<lambda>p t. Some (PyException ''disk full''))\<rparr>"
  have j: "joinpath ''/tmp/t'' ''id0'' = ''/tmp/t/id0''"
    by (simp add: joinpath_def)
  have f: "joinpath ''/tmp/t'' ''id0'' \<notin> dom (Map.empty :: disk)"
    by simp
  have fw: "\<exists>k. joinpath ''/tmp/t'' (env_uuid4 ?w k) \<notin> dom (Map.empty :: disk)"
    by simp
  have fw': "\<exists>k. joinpath ''/tmp/t'' (env_uuid4 ?w' k) \<notin> dom (Map.empty :: disk)"
    by simp
  have ta: "batch_table ?read [''a.sql''] = [(''a.sql'', ''SELECT A FROM T;'')]"
    by code_simp
  have tb: "batch_table ?read [''b.sql''] = []"
    by code_simp
  have a: "process_files ?w Map.empty ''/tmp/t'' [''a.sql'']
      = Some ((Some ''/tmp/t/id0'', None), [''/tmp/t/id0'' \<mapsto> [(''a.sql'', ''SELECT A FROM T;'')]])"
    using process_files_always_returns [OF fw, of "[''a.sql'']", THEN conjunct1]
      generate_temp_file_path_Some [of "\<lambda>k. ''id0''" Map.empty "''/tmp/t''" 0]
    by (auto simp: ta j process_files_def process_files_try_def write_results_def
        split: option.splits sum.splits)
  have b: "process_files ?w' Map.empty ''/tmp/t'' [''a.sql''] = Some ((None, Some ''disk full''), Map.empty)"
    using process_files_always_returns [OF fw', of "[''a.sql'']", THEN conjunct1]
    by (auto simp: ta format_exc_def)
  have c: "process_files ?w Map.empty ''/tmp/t'' [''b.sql''] = Some ((None, None), Map.empty)"
    using process_files_always_returns [OF fw, of "[''b.sql'']", THEN conjunct1]
    by (auto simp: tb)
  show ?thesis by (intro conjI f a b c)
qed

text \<open>
  Claim C4. The batch-level table holds exactly the matches of the files of the batch
  that can be read, each as often as it occurs: a file whose reading raises adds nothing
  and the files after it are still processed. This table is what \<^verbatim>\<open>process_files\<close>
  writes to the artifact it returns. In particular a batch of a readable file, an
  unreadable file and another readable file gives the matches of the two readable files,
  those of the later file first.
\<close>

theorem process_files_failure_isolation:
  "mset (batch_table (env_read w) files) =
     mset (concat (map (\<lambda>f. case env_read w f of
                             Inl e \<Rightarrow> []
                           | Inr content \<Rightarrow>
                               map (\<lambda>m. (f, m)) (finditer SQL_PATTERN (upper (bytes_str content))))
                        files))
   \<and> (\<forall>p d'. process_files w d tmp_dir files = Some ((Some p, None), d') \<longrightarrow>
          d' p = Some (batch_table (env_read w) files))
   \<and> (env_read w r1 = Inr c1 \<and> env_read w u = Inl e \<and> env_read w r2 = Inr c2 \<longrightarrow>
          batch_table (env_read w) [r1, u, r2] =
            map (\<lambda>m. (r2, m)) (finditer SQL_PATTERN (upper (bytes_str c2)))
            @ map (\<lambda>m. (r1, m)) (finditer SQL_PATTERN (upper (bytes_str c1))))"
proof -
  have a: "mset (batch_table (env_read w) files) =
     mset (concat (map (\<lambda>f. case env_read w f of
                             Inl e \<Rightarrow> []
                           | Inr content \<Rightarrow>
                               map (\<lambda>m. (f, m)) (finditer SQL_PATTERN (upper (bytes_str content))))
                        files))"
    by (rule batch_table_mset)
  have b: "\<forall>p d'. process_files w d tmp_dir files = Some ((Some p, None), d') \<longrightarrow>
          d' p = Some (batch_table (env_read w) files)"
    by (auto simp: process_files_def process_files_try_def write_results_def Let_def
        split: option.splits sum.splits if_splits)
  have c: "env_read w r1 = Inr c1 \<and> env_read w u = Inl e \<and> env_read w r2 = Inr c2 \<longrightarrow>
          batch_table (env_read w) [r1, u, r2] =
            map (\<lambda>m. (r2, m)) (finditer SQL_PATTERN (upper (bytes_str c2)))
            @ map (\<lambda>m. (r1, m)) (finditer SQL_PATTERN (upper (bytes_str c1)))"
    by (simp add: batch_table_eq process_file_cases)
  show ?thesis by (intro conjI a b c)
qed

theorem process_files_failure_isolation_witness:
  "batch_table (\<lambda>p. if p = ''a.sql'' then Inr ''select a from t;''
                     else if p = ''b.sql'' then Inr ''x select b from u; y''
                     else Inl (PyException ''unreadable''))
     [''a.sql'', ''bad.sql'', ''b.sql'']
     = [(''b.sql'', ''SELECT B FROM U;''), (''a.sql'', ''SELECT A FROM T;'')]
   \<and> process_files
        \<lparr>env_read = (\<lambda>p. if p = ''a.sql'' then Inr ''select a from t;''
                     else if p = ''b.sql'' then Inr ''x select b from u; y''
                     else Inl (PyException ''unreadable'')),
         env_uuid4 = (\<lambda>k. ''id0''), env_to_feather = (\<lambda>p t. None)\<rparr>
        Map.empty ''/tmp/t'' [''a.sql'', ''bad.sql'', ''b.sql'']
      = Some ((Some ''/tmp/t/id0'', None),
          [''/tmp/t/id0'' \<mapsto> [(''b.sql'', ''SELECT B FROM U;''), (''a.sql'', ''SELECT A FROM T;'')]])"
proof -
  let ?read = "\<lambda>p. if p = ''a.sql'' then Inr ''select a from t;''
                     else if p = ''b.sql'' then Inr ''x select b from u; y''
                     else Inl (PyException ''unreadable'')"
  let ?w = "\<lparr>env_read = ?read, env_uuid4 = (\<lambda>k. ''id0''), env_to_feather = (\<lambda>p t. None)\<rparr>"
  have ma: "finditer SQL_PATTERN (upper (bytes_str ''select a from t;'')) = [''SELECT A FROM T;'']"
    by code_simp
  have mb: "finditer SQL_PATTERN (upper (bytes_str ''x select b from u; y'')) = [''SELECT B FROM U;'']"
    by code_simp
  have r: "env_read ?w ''a.sql'' = Inr ''select a from t;''
      \<and> env_read ?w ''bad.sql'' = Inl (PyException ''unreadable'')
      \<and> env_read ?w ''b.sql'' = Inr ''x select b from u; y''"
    by simp
  note t = process_files_failure_isolation
    [of ?w "[''a.sql'', ''bad.sql'', ''b.sql'']" Map.empty "''/tmp/t''"
       "''a.sql''" "''select a from t;''" "''bad.sql''" "PyException ''unreadable''"
       "''b.sql''" "''x select b from u; y''"]
  from t [THEN conjunct2, THEN conjunct2, rule_format, OF r]
  have a: "batch_table ?read [''a.sql'', ''bad.sql'', ''b.sql'']
     = [(''b.sql'', ''SELECT B FROM U;''), (''a.sql'', ''SELECT A FROM T;'')]"
    by (simp add: ma mb)
  have g: "generate_temp_file_path (\<lambda>k. ''id0'') Map.empty ''/tmp/t'' 0 = Some ''/tmp/t/id0''"
    by (subst generate_temp_file_path.simps) (simp add: joinpath_def)
  have b: "process_files ?w Map.empty ''/tmp/t'' [''a.sql'', ''bad.sql'', ''b.sql'']
      = Some ((Some ''/tmp/t/id0'', None),
          [''/tmp/t/id0'' \<mapsto> [(''b.sql'', ''SELECT B FROM U;''), (''a.sql'', ''SELECT A FROM T;'')]])"
    by (simp add: process_files_def process_files_try_def write_results_def a g)
  show ?thesis by (intro conjI a b)
qed

section \<open>Properties of the Result Store\<close>

lemma save_results_other: "q \<noteq> RESULTS_DF \<Longrightarrow> save_results p d q = d q"
  by (simp add: save_results_def split: option.splits)

lemma store_rows_save_results:
  "d p = Some a \<Longrightarrow> p \<noteq> RESULTS_DF \<Longrightarrow> store_rows (save_results p d) = store_rows d @ a"
  by (simp add: save_results_def store_rows_def split: option.splits)

lemma save_results_additive: "\<exists>new. store_rows (save_results p d) = store_rows d @ new"
  by (auto simp: save_results_def store_rows_def split: option.splits)

lemma save_results_creates: "d p = Some a \<Longrightarrow> RESULTS_DF \<in> dom (save_results p d)"
  by (auto simp: save_results_def split: option.splits)

lemma save_results_keeps: "RESULTS_DF \<in> dom d \<Longrightarrow> RESULTS_DF \<in> dom (save_results p d)"
  by (auto simp: save_results_def split: option.splits)

lemma fold_save_results_other:
  "q \<noteq> RESULTS_DF \<Longrightarrow> fold save_results ps d q = d q"
  by (induction ps arbitrary: d) (simp_all add: save_results_other)

lemma fold_save_results_keeps:
  "RESULTS_DF \<in> dom d \<Longrightarrow> RESULTS_DF \<in> dom (fold save_results ps d)"
  by (induction ps arbitrary: d) (simp_all add: save_results_keeps)

lemma fold_save_results_rows:
  "RESULTS_DF \<notin> set ps \<Longrightarrow> map d ps = map Some ts \<Longrightarrow>
     store_rows (fold save_results ps d) = store_rows d @ concat ts"
proof (induction ps arbitrary: d ts)
  case Nil
  then show ?case by simp
next
  case (Cons p ps)
  from Cons.prems(2) obtain a ts' where ts: "ts = a # ts'" "d p = Some a" "map d ps = map Some ts'"
    by (cases ts) auto
  from Cons.prems(1) have ne: "p \<noteq> RESULTS_DF" "RESULTS_DF \<notin> set ps" by auto
  have "\<And>x. x \<in> set ps \<Longrightarrow> save_results p d x = d x"
  proof -
    fix x assume "x \<in> set ps"
    with ne(2) have "x \<noteq> RESULTS_DF" by auto
    then show "save_results p d x = d x" by (rule save_results_other)
  qed
  then have "map (save_results p d) ps = map d ps"
    by (intro map_cong) auto
  with ts(3) have "map (save_results p d) ps = map Some ts'" by simp
  from Cons.IH [OF ne(2) this]
  show ?case using ts ne by (simp add: store_rows_save_results)
qed

lemma fold_save_results_count:
  assumes "RESULTS_DF \<notin> set ps" "set ps \<subseteq> dom d"
  shows "length (store_rows (fold save_results ps d)) =
           length (store_rows d) + sum_list (map (\<lambda>p. length (the (d p))) ps)"
proof -
  have "map d ps = map Some (map (\<lambda>p. the (d p)) ps)"
    using assms(2) by (induction ps) auto
  from fold_save_results_rows [OF assms(1) this]
  show ?thesis by (simp add: length_concat comp_def)
qed

lemma sum_list_perm:
  fixes f :: "'a \<Rightarrow> nat"
  shows "mset qs = mset ps \<Longrightarrow> sum_list (map f qs) = sum_list (map f ps)"
proof -
  assume "mset qs = mset ps"
  then have "mset (map f qs) = mset (map f ps)" by simp
  then have "sum_mset (mset (map f qs)) = sum_mset (mset (map f ps))" by (rule arg_cong)
  then show ?thesis by (simp only: sum_mset_sum_list)
qed

text \<open>
  Claim C2, as it holds. Merging artifacts one at a time, whatever the store held before
  (the artifacts exist and none is the store file itself): the store holds its former
  rows followed by the rows of the artifacts in the order of the merges, so its row count
  is the former row count (zero when the store was absent) plus the sum of the row counts
  of the artifacts; from an absent store, as after the reset of a run, it is that sum;
  the count does not depend on the order of the merges; the store exists after the first
  merge; and any single merge keeps every row of the store in place.
\<close>

theorem save_results_additive_merge:
  "RESULTS_DF \<notin> set ps \<Longrightarrow> map d ps = map Some ts \<Longrightarrow>
     store_rows (fold save_results ps d) = store_rows d @ concat ts
     \<and> length (store_rows (fold save_results ps d)) =
         length (store_rows d) + sum_list (map length ts)
     \<and> (d RESULTS_DF = None \<longrightarrow>
          length (store_rows (fold save_results ps d)) = sum_list (map length ts))
     \<and> (\<forall>qs. mset qs = mset ps \<longrightarrow>
          length (store_rows (fold save_results qs d)) =
            length (store_rows (fold save_results ps d)))
     \<and> (ps \<noteq> [] \<longrightarrow> RESULTS_DF \<in> dom (fold save_results ps d))
     \<and> (\<forall>p d0. \<exists>new. store_rows (save_results p d0) = store_rows d0 @ new)"
proof -
  assume ps: "RESULTS_DF \<notin> set ps" and ts: "map d ps = map Some ts"
  have a: "store_rows (fold save_results ps d) = store_rows d @ concat ts"
    using ps ts by (rule fold_save_results_rows)
  then have b: "length (store_rows (fold save_results ps d)) =
         length (store_rows d) + sum_list (map length ts)"
    by (simp add: length_concat)
  have c: "d RESULTS_DF = None \<longrightarrow>
          length (store_rows (fold save_results ps d)) = sum_list (map length ts)"
    using b by (simp add: store_rows_def)
  have dom: "set ps \<subseteq> dom d"
  proof
    fix p assume "p \<in> set ps"
    then have "d p \<in> set (map d ps)" by simp
    then show "p \<in> dom d" unfolding ts by auto
  qed
  have e: "\<forall>qs. mset qs = mset ps \<longrightarrow>
          length (store_rows (fold save_results qs d)) =
            length (store_rows (fold save_results ps d))"
  proof (intro allI impI)
    fix qs assume q: "mset qs = mset ps"
    then have s: "set qs = set ps" by (rule mset_eq_setD)
    have "length (store_rows (fold save_results qs d)) =
           length (store_rows d) + sum_list (map (\<lambda>p. length (the (d p))) qs)"
      using ps dom s by (intro fold_save_results_count) auto
    also have "\<dots> = length (store_rows d) + sum_list (map (\<lambda>p. length (the (d p))) ps)"
      using sum_list_perm [OF q] by simp
    also have "\<dots> = length (store_rows (fold save_results ps d))"
      using ps dom by (intro fold_save_results_count [symmetric]) auto
    finally show "length (store_rows (fold save_results qs d)) =
            length (store_rows (fold save_results ps d))" .
  qed
  have f: "ps \<noteq> [] \<longrightarrow> RESULTS_DF \<in> dom (fold save_results ps d)"
  proof
    assume "ps \<noteq> []"
    then obtain p ps' where pp: "ps = p # ps'" by (cases ps) auto
    with dom obtain a0 where "d p = Some a0" by auto
    then have "RESULTS_DF \<in> dom (save_results p d)" by (rule save_results_creates)
    then show "RESULTS_DF \<in> dom (fold save_results ps d)"
      unfolding pp by (simp add: fold_save_results_keeps)
  qed
  have g: "\<forall>p d0. \<exists>new. store_rows (save_results p d0) = store_rows d0 @ new"
    using save_results_additive by blast
  show ?thesis by (intro conjI a b c e f g)
qed

theorem save_results_additive_merge_witness:
  "RESULTS_DF \<notin> set [''/tmp/t/a1'', ''/tmp/t/a2'']
   \<and> store_rows (fold save_results [''/tmp/t/a1'', ''/tmp/t/a2'']
        [''/tmp/t/a1'' \<mapsto> [(''f'', ''SELECT 1 FROM T;'')],
         ''/tmp/t/a2'' \<mapsto> [(''g'', ''SELECT 2 FROM T;''), (''g'', ''SELECT 3 FROM T;'')]])
      = [(''f'', ''SELECT 1 FROM T;''), (''g'', ''SELECT 2 FROM T;''), (''g'', ''SELECT 3 FROM T;'')]
   \<and> length (store_rows (fold save_results [''/tmp/t/a2'', ''/tmp/t/a1'']
        [''/tmp/t/a1'' \<mapsto> [(''f'', ''SELECT 1 FROM T;'')],
         ''/tmp/t/a2'' \<mapsto> [(''g'', ''SELECT 2 FROM T;''), (''g'', ''SELECT 3 FROM T;'')]]))
      = 3"
proof -
  let ?d = "[''/tmp/t/a1'' \<mapsto> [(''f'', ''SELECT 1 FROM T;'')],
         ''/tmp/t/a2'' \<mapsto> [(''g'', ''SELECT 2 FROM T;''), (''g'', ''SELECT 3 FROM T;'')]] :: disk"
  let ?ts = "[[(''f'', ''SELECT 1 FROM T;'')], [(''g'', ''SELECT 2 FROM T;''), (''g'', ''SELECT 3 FROM T;'')]]"
  have h1: "RESULTS_DF \<notin> set [''/tmp/t/a1'', ''/tmp/t/a2'']"
    by (simp add: RESULTS_DF_def)
  have h2: "map ?d [''/tmp/t/a1'', ''/tmp/t/a2''] = map Some ?ts"
    by simp
  have n: "?d RESULTS_DF = None"
    by (simp add: RESULTS_DF_def)
  note t = save_results_additive_merge [OF h1 h2]
  have a: "store_rows (fold save_results [''/tmp/t/a1'', ''/tmp/t/a2''] ?d)
      = [(''f'', ''SELECT 1 FROM T;''), (''g'', ''SELECT 2 FROM T;''), (''g'', ''SELECT 3 FROM T;'')]"
    using t [THEN conjunct1] n by (simp add: store_rows_def)
  have l: "length (store_rows (fold save_results [''/tmp/t/a1'', ''/tmp/t/a2''] ?d)) = 3"
    by (simp only: a) simp
  have m: "mset [''/tmp/t/a2'', ''/tmp/t/a1''] = mset [''/tmp/t/a1'', ''/tmp/t/a2'']"
    by simp
  have b: "length (store_rows (fold save_results [''/tmp/t/a2'', ''/tmp/t/a1''] ?d)) = 3"
    using t [THEN conjunct2, THEN conjunct2, THEN conjunct2, THEN conjunct1, rule_format, OF m] l
    by (simp only:)
  show ?thesis by (intro conjI h1 a b)
qed

text \<open>
  Claim C2 as stated fails for a store that already holds rows: merging one artifact of
  one row into a store of one row gives two rows, not the sum of the artifacts' row
  counts.
\<close>

theorem save_results_count_counterexample:
  "\<not> (length (store_rows (fold save_results [''/tmp/t/a1'']
          [RESULTS_DF \<mapsto> [(''f'', ''SELECT 1 FROM T;'')],
           ''/tmp/t/a1'' \<mapsto> [(''g'', ''SELECT 2 FROM T;'')]]))
       = sum_list (map length [[(''g'', ''SELECT 2 FROM T;'')]]))"
  by (simp add: save_results_def store_rows_def RESULTS_DF_def)

section \<open>Properties of the Reporter\<close>

lemma groupby_size_keys: "map fst (groupby_size keys) = sort (remdups keys)"
  by (simp add: groupby_size_def comp_def)

lemma groupby_size_distinct: "distinct (map fst (groupby_size keys))"
  by (simp add: groupby_size_keys)

lemma groupby_size_names: "fst ` set (groupby_size keys) = set keys"
proof -
  have "set (map fst (groupby_size keys)) = set keys"
    by (simp only: groupby_size_keys set_sort set_remdups)
  then show ?thesis by simp
qed

lemma groupby_size_count:
  "(k, c) \<in> set (groupby_size keys) \<Longrightarrow> k \<in> set keys \<and> c = count_list keys k"
  by (auto simp: groupby_size_def)

lemma groupby_size_length: "length (groupby_size keys) = card (set keys)"
  by (simp add: groupby_size_def length_remdups_card_conv)

lemma sort_values_stable_contract: "sorts_by_count_desc sort_values_stable"
proof -
  have "sorted_wrt (\<lambda>a b. snd a \<ge> snd b) (sort_values_stable xs)" for xs :: "(string \<times> nat) list"
  proof -
    have "sorted (map snd (sort_key snd (rev xs)))" by (rule sorted_sort_key)
    then have "sorted_wrt (\<lambda>a b. snd a \<le> snd b) (sort_key snd (rev xs))"
      by (simp add: sorted_wrt_map)
    then have "sorted_wrt (\<lambda>b a. snd a \<le> snd b) (rev (sort_key snd (rev xs)))"
      by (simp add: sorted_wrt_rev)
    then show ?thesis by (simp add: sort_values_stable_def)
  qed
  moreover have "mset (sort_values_stable xs) = mset xs" for xs :: "(string \<times> nat) list"
    by (simp add: sort_values_stable_def)
  ultimately show ?thesis by (simp add: sorts_by_count_desc_def)
qed

lemma top_filenames_general:
  assumes sv: "sorts_by_count_desc sort_values"
    and n: "10 \<le> card (set names)"
    and T: "T = (let freqs = sort_values (groupby_size names) in
                 if length freqs \<ge> 10 then take 10 freqs else freqs)"
  shows "length T = 10"
    and "sorted_wrt (\<lambda>a b. snd a \<ge> snd b) T"
    and "distinct (map fst T)"
    and "\<forall>(k, c) \<in> set T. k \<in> set names \<and> c = count_list names k \<and> 0 < c"
    and "\<forall>k \<in> set names - fst ` set T. \<forall>(k', c') \<in> set T. count_list names k \<le> c'"
proof -
  define G where "G = groupby_size names"
  define S where "S = sort_values G"
  have ms: "mset S = mset G" and so: "sorted_wrt (\<lambda>a b. snd a \<ge> snd b) S"
    using sv by (simp_all add: sorts_by_count_desc_def S_def)
  have len: "length S = card (set names)"
    using ms groupby_size_length [of names] by (metis G_def mset_eq_length)
  have set: "set S = set G" using ms by (rule mset_eq_setD)
  have "mset (map fst S) = mset (map fst G)" using ms by simp
  then have dS: "distinct (map fst S)"
    using groupby_size_distinct [of names] by (metis G_def mset_eq_imp_distinct_iff)
  have Tt: "T = take 10 S" using T len n by (simp add: Let_def S_def G_def)
  show "length T = 10" using Tt len n by simp
  have split: "S = T @ drop 10 S" by (simp add: Tt)
  show "sorted_wrt (\<lambda>a b. snd a \<ge> snd b) T"
    using so by (subst (asm) split) (simp add: sorted_wrt_append)
  show "distinct (map fst T)"
    using dS by (subst (asm) split) simp
  have sub: "set T \<subseteq> set G" using set split by (metis Un_upper1 set_append)
  show "\<forall>(k, c) \<in> set T. k \<in> set names \<and> c = count_list names k \<and> 0 < c"
  proof (clarify)
    fix k c assume "(k, c) \<in> set T"
    with sub have "(k, c) \<in> set (groupby_size names)" by (auto simp: G_def)
    then have kc: "k \<in> set names" "c = count_list names k" by (auto dest: groupby_size_count)
    then have "0 < c" using count_list_0_iff [of names k] by auto
    with kc show "k \<in> set names \<and> c = count_list names k \<and> 0 < c" by simp
  qed
  show "\<forall>k \<in> set names - fst ` set T. \<forall>(k', c') \<in> set T. count_list names k \<le> c'"
  proof (clarify)
    fix k k' c' assume k: "k \<in> set names" "k \<notin> fst ` set T" and t: "(k', c') \<in> set T"
    from k(1) have "k \<in> fst ` set G" by (simp add: G_def groupby_size_names)
    then obtain c where c: "(k, c) \<in> set G" by auto
    then have cc: "c = count_list names k" by (auto simp: G_def dest: groupby_size_count)
    from c set have "(k, c) \<in> set T \<union> set (drop 10 S)" by (metis split set_append)
    with k(2) have "(k, c) \<in> set (drop 10 S)" by force
    moreover have "\<forall>x \<in> set T. \<forall>y \<in> set (drop 10 S). snd x \<ge> snd y"
      using so by (subst (asm) split) (simp add: sorted_wrt_append)
    ultimately have "snd (k', c') \<ge> snd (k, c)" using t by blast
    with cc show "count_list names k \<le> c'" by simp
  qed
qed

text \<open>
  Claim C7, as it holds. The Reporter ranks file names, not files: the rows of files that
  share a file name are counted together. When the store holds rows of at least ten
  distinct file names (fifteen, say), the top list has exactly ten entries with distinct
  file names, each with the number of rows of that file name, in descending order of
  count, and no file name left out has more rows than a listed one. The order among
  equal counts is the one the sort gives.
\<close>

theorem provide_output_top_filenames:
  "sorts_by_count_desc sort_values \<Longrightarrow> d RESULTS_DF = Some df \<Longrightarrow>
   names = map (\<lambda>(filepath, sql). path_name filepath) df \<Longrightarrow>
   10 \<le> card (set names) \<Longrightarrow>
   T = top_filenames (fst (provide_output sort_values d)) \<Longrightarrow>
     length T = 10
     \<and> sorted_wrt (\<lambda>a b. snd a \<ge> snd b) T
     \<and> distinct (map fst T)
     \<and> (\<forall>(k, c) \<in> set T. k \<in> set names \<and> c = count_list names k \<and> 0 < c)
     \<and> (\<forall>k \<in> set names - fst ` set T. \<forall>(k', c') \<in> set T. count_list names k \<le> c')"
proof -
  assume sv: "sorts_by_count_desc sort_values" and d: "d RESULTS_DF = Some df"
    and names: "names = map (\<lambda>(filepath, sql). path_name filepath) df"
    and n: "10 \<le> card (set names)"
    and T: "T = top_filenames (fst (provide_output sort_values d))"
  have "T = (let freqs = sort_values (groupby_size names) in
                 if length freqs \<ge> 10 then take 10 freqs else freqs)"
    using d by (simp add: T provide_output_def filename_freqs_def names)
  from top_filenames_general [OF sv n this] show ?thesis by (intro conjI)
qed

theorem provide_output_top_filenames_witness:
  "sorts_by_count_desc sort_values_stable
   \<and> card (set (map (\<lambda>(filepath, sql). path_name filepath) fifteen_files_store)) = 15
   \<and> top_filenames (fst (provide_output sort_values_stable [RESULTS_DF \<mapsto> fifteen_files_store]))
      = [(''f01.sql'', 3), (''f02.sql'', 3), (''f03.sql'', 3), (''f04.sql'', 3), (''f05.sql'', 3),
         (''f06.sql'', 2), (''f07.sql'', 2), (''f08.sql'', 2), (''f09.sql'', 2), (''f10.sql'', 2)]
   \<and> length (top_filenames
        (fst (provide_output sort_values_stable [RESULTS_DF \<mapsto> fifteen_files_store]))) = 10
   \<and> sorted_wrt (\<lambda>a b. snd a \<ge> snd b) (top_filenames
        (fst (provide_output sort_values_stable [RESULTS_DF \<mapsto> fifteen_files_store])))"
proof -
  let ?d = "[RESULTS_DF \<mapsto> fifteen_files_store]"
  let ?names = "map (\<lambda>(filepath, sql). path_name filepath) fifteen_files_store"
  let ?T = "top_filenames (fst (provide_output sort_values_stable ?d))"
  have c: "card (set ?names) = 15"
    by code_simp
  then have n: "10 \<le> card (set ?names)"
    by simp
  have s: "?d RESULTS_DF = Some fifteen_files_store"
    by simp
  have e: "?T = [(''f01.sql'', 3), (''f02.sql'', 3), (''f03.sql'', 3), (''f04.sql'', 3), (''f05.sql'', 3),
         (''f06.sql'', 2), (''f07.sql'', 2), (''f08.sql'', 2), (''f09.sql'', 2), (''f10.sql'', 2)]"
    by code_simp
  note t = provide_output_top_filenames
    [of sort_values_stable ?d fifteen_files_store ?names ?T,
     OF sort_values_stable_contract s refl n refl]
  show ?thesis
    by (intro conjI sort_values_stable_contract c e t [THEN conjunct1]
        t [THEN conjunct2, THEN conjunct1])
qed

text \<open>
  Claim C7 as stated fails when two files share a file name: of the 15 files of
  \<open>shared_name_store\<close> the two named \<^verbatim>\<open>x.sql\<close> have the fewest matches (two each,
  the others three each), yet the top list starts with \<^verbatim>\<open>x.sql\<close> and the count 4,
  which is the match count of no file.
\<close>

theorem provide_output_top_files_counterexample:
  "length (remdups (map fst shared_name_store)) = 15
   \<and> groupby_size (map fst shared_name_store)
      = [(''a/x.sql'', 2), (''b/x.sql'', 2), (''s/f01.sql'', 3), (''s/f02.sql'', 3),
         (''s/f03.sql'', 3), (''s/f04.sql'', 3), (''s/f05.sql'', 3), (''s/f06.sql'', 3),
         (''s/f07.sql'', 3), (''s/f08.sql'', 3), (''s/f09.sql'', 3), (''s/f10.sql'', 3),
         (''s/f11.sql'', 3), (''s/f12.sql'', 3), (''s/f13.sql'', 3)]
   \<and> top_filenames (fst (provide_output sort_values_stable [RESULTS_DF \<mapsto> shared_name_store]))
      = [(''x.sql'', 4), (''f01.sql'', 3), (''f02.sql'', 3), (''f03.sql'', 3), (''f04.sql'', 3),
         (''f05.sql'', 3), (''f06.sql'', 3), (''f07.sql'', 3), (''f08.sql'', 3), (''f09.sql'', 3)]"
proof -
  have a: "length (remdups (map fst shared_name_store)) = 15"
    by code_simp
  have b: "groupby_size (map fst shared_name_store)
      = [(''a/x.sql'', 2), (''b/x.sql'', 2), (''s/f01.sql'', 3), (''s/f02.sql'', 3),
         (''s/f03.sql'', 3), (''s/f04.sql'', 3), (''s/f05.sql'', 3), (''s/f06.sql'', 3),
         (''s/f07.sql'', 3), (''s/f08.sql'', 3), (''s/f09.sql'', 3), (''s/f10.sql'', 3),
         (''s/f11.sql'', 3), (''s/f12.sql'', 3), (''s/f13.sql'', 3)]"
    by code_simp
  have c: "top_filenames (fst (provide_output sort_values_stable [RESULTS_DF \<mapsto> shared_name_store]))
      = [(''x.sql'', 4), (''f01.sql'', 3), (''f02.sql'', 3), (''f03.sql'', 3), (''f04.sql'', 3),
         (''f05.sql'', 3), (''f06.sql'', 3), (''f07.sql'', 3), (''f08.sql'', 3), (''f09.sql'', 3)]"
    by code_simp
  show ?thesis by (intro conjI a b c)
qed

section \<open>The store is never empty\<close>

lemma joinpath_not_results: "joinpath tmp_dir file_name \<noteq> RESULTS_DF"
proof
  assume "joinpath tmp_dir file_name = RESULTS_DF"
  then have "set (joinpath tmp_dir file_name) = set RESULTS_DF" by simp
  moreover have "CHR ''/'' \<in> set (joinpath tmp_dir file_name)" by (simp add: joinpath_def)
  moreover have "CHR ''/'' \<notin> set RESULTS_DF" by (simp add: RESULTS_DF_def)
  ultimately show False by simp
qed

lemma process_files_result:
  assumes "process_files w d tmp_dir files = Some (r, d')"
  shows "(fst r = None \<and> d' = d)
     \<or> (\<exists>p T. r = (Some p, None) \<and> p \<notin> dom d \<and> p \<noteq> RESULTS_DF \<and> T \<noteq> []
            \<and> T = batch_table (env_read w) files \<and> d' = d(p \<mapsto> T))"
proof (cases "batch_table (env_read w) files = []")
  case True
  with assms show ?thesis
    by (auto simp: process_files_def process_files_try_def)
next
  case False
  show ?thesis
  proof (cases "generate_temp_file_path (env_uuid4 w) d tmp_dir 0")
    case None
    with assms False show ?thesis
      by (simp add: process_files_def process_files_try_def)
  next
    case (Some p)
    from generate_temp_file_path_Some [OF Some]
    have p: "p \<notin> dom d" "p \<noteq> RESULTS_DF" by (auto simp: joinpath_not_results)
    show ?thesis
    proof (cases "env_to_feather w p (batch_table (env_read w) files)")
      case None
      with assms False Some p show ?thesis
        by (auto simp: process_files_def process_files_try_def write_results_def)
    next
      case (Some e)
      with assms False \<open>generate_temp_file_path (env_uuid4 w) d tmp_dir 0 = Some p\<close> show ?thesis
        by (auto simp: process_files_def process_files_try_def write_results_def)
    qed
  qed
qed

lemma save_results_nonempty:
  assumes "d p = Some a" "a \<noteq> []"
  shows "\<exists>df. save_results p d RESULTS_DF = Some df \<and> df \<noteq> []"
  using assms by (auto simp: save_results_def split: option.splits)

lemma collect_future_store:
  assumes store: "\<forall>df. d RESULTS_DF = Some df \<longrightarrow> df \<noteq> []"
    and art: "\<forall>p e. r = (Some p, e) \<longrightarrow> p \<noteq> RESULTS_DF \<and> (\<forall>df. d p = Some df \<longrightarrow> df \<noteq> [])"
  shows "\<forall>df. collect_future r d RESULTS_DF = Some df \<longrightarrow> df \<noteq> []"
proof (cases r)
  case (Pair po e)
  show ?thesis
  proof (cases po)
    case None
    with Pair store show ?thesis by (simp add: collect_future_def)
  next
    case (Some p)
    with Pair art have p: "p \<noteq> RESULTS_DF" "\<forall>df. d p = Some df \<longrightarrow> df \<noteq> []" by auto
    have "collect_future r d RESULTS_DF = save_results p d RESULTS_DF"
      using Pair Some p(1) by (simp add: collect_future_def)
    moreover have "\<forall>df. save_results p d RESULTS_DF = Some df \<longrightarrow> df \<noteq> []"
    proof (cases "d p")
      case None
      then show ?thesis using store by (simp add: save_results_def)
    next
      case (Some a)
      with p(2) have "a \<noteq> []" by simp
      from save_results_nonempty [of d p a, OF Some this] show ?thesis by auto
    qed
    ultimately show ?thesis by simp
  qed
qed

lemma collect_future_other:
  "q \<noteq> RESULTS_DF \<Longrightarrow> collect_future r d q = Some df \<Longrightarrow> d q = Some df"
  by (cases r) (auto simp: collect_future_def save_results_other split: option.splits if_splits)

lemma reachable_invariant:
  "reachable tmp_dir s \<Longrightarrow>
     (\<forall>df. run_disk s RESULTS_DF = Some df \<longrightarrow> df \<noteq> [])
     \<and> (\<forall>p e. (Some p, e) \<in> set (run_futures s) \<longrightarrow>
           p \<noteq> RESULTS_DF \<and> (\<forall>df. run_disk s p = Some df \<longrightarrow> df \<noteq> []))"
proof (induction rule: reachable.induct)
  case (start d)
  show ?case by (auto simp: reset_results_def)
next
  case (batch_done s w files r d')
  from process_files_result [OF batch_done.hyps(2)]
  show ?case
  proof
    assume "fst r = None \<and> d' = run_disk s"
    with batch_done.IH show ?thesis by auto
  next
    assume "\<exists>p T. r = (Some p, None) \<and> p \<notin> dom (run_disk s) \<and> p \<noteq> RESULTS_DF \<and> T \<noteq> []
            \<and> T = batch_table (env_read w) files \<and> d' = (run_disk s)(p \<mapsto> T)"
    then obtain p T where r: "r = (Some p, None)" "p \<noteq> RESULTS_DF" "T \<noteq> []"
      "d' = (run_disk s)(p \<mapsto> T)" by blast
    with batch_done.IH show ?thesis by auto
  qed
next
  case (collected s i)
  let ?r = "run_futures s ! i"
  have mem: "?r \<in> set (run_futures s)" using collected.hyps(2) by simp
  have a: "\<forall>df. collect_future ?r (run_disk s) RESULTS_DF = Some df \<longrightarrow> df \<noteq> []"
  proof (rule collect_future_store)
    show "\<forall>df. run_disk s RESULTS_DF = Some df \<longrightarrow> df \<noteq> []" using collected.IH by simp
    show "\<forall>p e. ?r = (Some p, e) \<longrightarrow>
            p \<noteq> RESULTS_DF \<and> (\<forall>df. run_disk s p = Some df \<longrightarrow> df \<noteq> [])"
      using collected.IH mem by metis
  qed
  have b: "\<forall>p e. (Some p, e) \<in> set (take i (run_futures s) @ drop (Suc i) (run_futures s)) \<longrightarrow>
           p \<noteq> RESULTS_DF \<and> (\<forall>df. collect_future ?r (run_disk s) p = Some df \<longrightarrow> df \<noteq> [])"
  proof (intro allI impI)
    fix p e assume "(Some p, e) \<in> set (take i (run_futures s) @ drop (Suc i) (run_futures s))"
    then have "(Some p, e) \<in> set (run_futures s)"
      by (auto dest: in_set_takeD in_set_dropD)
    with collected.IH have p: "p \<noteq> RESULTS_DF" "\<forall>df. run_disk s p = Some df \<longrightarrow> df \<noteq> []"
      by auto
    show "p \<noteq> RESULTS_DF \<and> (\<forall>df. collect_future ?r (run_disk s) p = Some df \<longrightarrow> df \<noteq> [])"
      using p collect_future_other [OF p(1)] by blast
  qed
  show ?case using a b by simp
qed

text \<open>
  Claim C10. In every state a run can reach after its initial reset, a store file that
  exists holds at least one row. The two facts behind it: a worker writes an artifact
  only for a batch-level table that is not empty, and merging an artifact that is not
  empty leaves a store that is not empty.
\<close>

theorem store_never_empty:
  "reachable tmp_dir s \<Longrightarrow>
     (\<forall>df. run_disk s RESULTS_DF = Some df \<longrightarrow> df \<noteq> [])
     \<and> (\<forall>w d files p e d'. process_files w d tmp_dir files = Some ((Some p, e), d') \<longrightarrow>
           (\<exists>T. d' p = Some T \<and> T \<noteq> []))
     \<and> (\<forall>d p a. d p = Some a \<and> a \<noteq> [] \<longrightarrow>
           (\<exists>df. save_results p d RESULTS_DF = Some df \<and> df \<noteq> []))"
proof -
  assume r: "reachable tmp_dir s"
  have a: "\<forall>df. run_disk s RESULTS_DF = Some df \<longrightarrow> df \<noteq> []"
    using reachable_invariant [OF r] by simp
  have b: "\<forall>w d files p e d'. process_files w d tmp_dir files = Some ((Some p, e), d') \<longrightarrow>
           (\<exists>T. d' p = Some T \<and> T \<noteq> [])"
  proof (intro allI impI)
    fix w d files p e d'
    assume "process_files w d tmp_dir files = Some ((Some p, e), d')"
    from process_files_result [OF this] show "\<exists>T. d' p = Some T \<and> T \<noteq> []" by auto
  qed
  have c: "\<forall>d p a. d p = Some a \<and> a \<noteq> [] \<longrightarrow>
           (\<exists>df. save_results p d RESULTS_DF = Some df \<and> df \<noteq> [])"
    using save_results_nonempty by blast
  show ?thesis by (intro conjI a b c)
qed

theorem store_never_empty_witness:
  "reachable ''/tmp/t''
     \<lparr>run_disk = collect_future (Some ''/tmp/t/id0'', None)
        [''/tmp/t/id0'' \<mapsto> [(''a.sql'', ''SELECT A FROM T;'')]],
      run_futures = []\<rparr>
   \<and> collect_future (Some ''/tmp/t/id0'', None)
        [''/tmp/t/id0'' \<mapsto> [(''a.sql'', ''SELECT A FROM T;'')]] RESULTS_DF
      = Some [(''a.sql'', ''SELECT A FROM T;'')]
   \<and> collect_future (Some ''/tmp/t/id0'', None)
        [''/tmp/t/id0'' \<mapsto> [(''a.sql'', ''SELECT A FROM T;'')]] RESULTS_DF
      \<noteq> Some []"
proof -
  let ?read = "\<lambda>p. if p = ''a.sql'' then Inr ''select a from t;'' else Inl (PyException ''unreadable'')"
  let ?w = "\<lparr>env_read = ?read, env_uuid4 = (\<lambda>k. ''id0''), env_to_feather = (\<lambda>p t. None)\<rparr>"
  let ?T = "[(''a.sql'', ''SELECT A FROM T;'')]"
  let ?d1 = "[''/tmp/t/id0'' \<mapsto> ?T] :: disk"
  let ?s0 = "\<lparr>run_disk = reset_results Map.empty, run_futures = []\<rparr>"
  let ?s1 = "\<lparr>run_disk = ?d1, run_futures = run_futures ?s0 @ [(Some ''/tmp/t/id0'', None)]\<rparr>"
  have r0: "reachable ''/tmp/t'' ?s0"
    by (rule reachable.start)
  have ta: "batch_table ?read [''a.sql''] = ?T"
    by code_simp
  have g: "generate_temp_file_path (\<lambda>k. ''id0'') Map.empty ''/tmp/t'' 0 = Some ''/tmp/t/id0''"
    by (subst generate_temp_file_path.simps) (simp add: joinpath_def)
  have p: "process_files ?w (run_disk ?s0) ''/tmp/t'' [''a.sql'']
      = Some ((Some ''/tmp/t/id0'', None), ?d1)"
    by (simp add: process_files_def process_files_try_def write_results_def ta g reset_results_def)
  have r1: "reachable ''/tmp/t'' ?s1"
    using r0 p by (rule reachable.batch_done)
  have i: "0 < length (run_futures ?s1)"
    by simp
  have r2: "reachable ''/tmp/t''
     \<lparr>run_disk = collect_future (run_futures ?s1 ! 0) (run_disk ?s1),
      run_futures = take 0 (run_futures ?s1) @ drop (Suc 0) (run_futures ?s1)\<rparr>"
    using r1 i by (rule reachable.collected)
  then have r: "reachable ''/tmp/t''
     \<lparr>run_disk = collect_future (Some ''/tmp/t/id0'', None) ?d1, run_futures = []\<rparr>"
    by simp
  have e: "collect_future (Some ''/tmp/t/id0'', None) ?d1 RESULTS_DF = Some ?T"
    by (simp add: collect_future_def save_results_def RESULTS_DF_def)
  have n: "collect_future (Some ''/tmp/t/id0'', None) ?d1 RESULTS_DF \<noteq> Some []"
    using store_never_empty [OF r, THEN conjunct1] by auto
  show ?thesis by (intro conjI r e n)
qed

section \<open>The Reporter at the end of a run\<close>

text \<open>
  Claim C8. In every state a run can reach, \<^verbatim>\<open>provide_output\<close> prints the message
  that nothing was found exactly when the store is absent or empty (then it is absent: a
  store that exists holds a row), and prints the summary otherwise: the number of rows,
  which is not zero, the number of distinct file paths, the top list and the statistics
  of the counts per file path. Right after the reset, as when no file qualifies, it
  prints the message. It leaves the disk as it was.
\<close>

theorem provide_output_on_run:
  "reachable tmp_dir s \<Longrightarrow>
     (fst (provide_output sort_values (run_disk s)) = NoSqlFound \<longleftrightarrow>
        (run_disk s RESULTS_DF = None \<or> run_disk s RESULTS_DF = Some []))
     \<and> (fst (provide_output sort_values (run_disk s)) = NoSqlFound \<longleftrightarrow>
          store_rows (run_disk s) = [])
     \<and> (\<forall>df. run_disk s RESULTS_DF = Some df \<longrightarrow>
           df \<noteq> [] \<and>
           fst (provide_output sort_values (run_disk s)) =
             Summary (length df) (length (remdups (map fst df)))
               (filename_freqs sort_values df) (map snd (groupby_size (map fst df))))
     \<and> fst (provide_output sort_values (reset_results d0)) = NoSqlFound
     \<and> snd (provide_output sort_values (run_disk s)) = run_disk s"
proof -
  assume r: "reachable tmp_dir s"
  have ne: "\<forall>df. run_disk s RESULTS_DF = Some df \<longrightarrow> df \<noteq> []"
    using reachable_invariant [OF r] by (rule conjunct1)
  have a: "fst (provide_output sort_values (run_disk s)) = NoSqlFound \<longleftrightarrow>
        (run_disk s RESULTS_DF = None \<or> run_disk s RESULTS_DF = Some [])"
  proof (cases "run_disk s RESULTS_DF")
    case None
    then show ?thesis by (simp add: provide_output_def)
  next
    case (Some df)
    with ne have "df \<noteq> []" by simp
    with Some show ?thesis by (simp add: provide_output_def)
  qed
  have b: "fst (provide_output sort_values (run_disk s)) = NoSqlFound \<longleftrightarrow>
          store_rows (run_disk s) = []"
  proof (cases "run_disk s RESULTS_DF")
    case None
    then show ?thesis by (simp add: provide_output_def store_rows_def)
  next
    case (Some df)
    with ne have "df \<noteq> []" by simp
    with Some show ?thesis by (simp add: provide_output_def store_rows_def)
  qed
  have c: "\<forall>df. run_disk s RESULTS_DF = Some df \<longrightarrow>
           df \<noteq> [] \<and>
           fst (provide_output sort_values (run_disk s)) =
             Summary (length df) (length (remdups (map fst df)))
               (filename_freqs sort_values df) (map snd (groupby_size (map fst df)))"
    using ne by (simp add: provide_output_def)
  have d: "fst (provide_output sort_values (reset_results d0)) = NoSqlFound"
    by (auto simp: provide_output_def reset_results_def split: option.splits)
  have e: "snd (provide_output sort_values (run_disk s)) = run_disk s"
    by (simp add: provide_output_def split: option.splits)
  show ?thesis by (intro conjI a b c d e)
qed

theorem provide_output_on_run_witness:
  "reachable ''/tmp/t'' \<lparr>run_disk = reset_results Map.empty, run_futures = []\<rparr>
   \<and> fst (provide_output sort_values_stable (reset_results Map.empty)) = NoSqlFound
   \<and> reachable ''/tmp/t''
       \<lparr>run_disk = collect_future (Some ''/tmp/t/id0'', None)
          [''/tmp/t/id0'' \<mapsto> [(''s/a.sql'', ''SELECT A FROM T;'')]],
        run_futures = []\<rparr>
   \<and> fst (provide_output sort_values_stable
        (collect_future (Some ''/tmp/t/id0'', None)
          [''/tmp/t/id0'' \<mapsto> [(''s/a.sql'', ''SELECT A FROM T;'')]]))
      = Summary 1 1 [(''a.sql'', 1)] [1]
   \<and> snd (provide_output sort_values_stable
        (collect_future (Some ''/tmp/t/id0'', None)
          [''/tmp/t/id0'' \<mapsto> [(''s/a.sql'', ''SELECT A FROM T;'')]]))
      = collect_future (Some ''/tmp/t/id0'', None)
          [''/tmp/t/id0'' \<mapsto> [(''s/a.sql'', ''SELECT A FROM T;'')]]"
proof -
  let ?read = "\<lambda>p. if p = ''s/a.sql'' then Inr ''select a from t;''
                    else Inl (PyException ''unreadable'')"
  let ?w = "\<lparr>env_read = ?read, env_uuid4 = (\<lambda>k. ''id0''), env_to_feather = (\<lambda>p t. None)\<rparr>"
  let ?T = "[(''s/a.sql'', ''SELECT A FROM T;'')]"
  let ?d1 = "[''/tmp/t/id0'' \<mapsto> ?T] :: disk"
  let ?s0 = "\<lparr>run_disk = reset_results Map.empty, run_futures = []\<rparr>"
  let ?s1 = "\<lparr>run_disk = ?d1, run_futures = run_futures ?s0 @ [(Some ''/tmp/t/id0'', None)]\<rparr>"
  let ?d2 = "collect_future (Some ''/tmp/t/id0'', None) ?d1"
  let ?s2 = "\<lparr>run_disk = ?d2, run_futures = []\<rparr>"
  have r0: "reachable ''/tmp/t'' ?s0"
    by (rule reachable.start)
  have ta: "batch_table ?read [''s/a.sql''] = ?T"
    by code_simp
  have g: "generate_temp_file_path (\<lambda>k. ''id0'') Map.empty ''/tmp/t'' 0 = Some ''/tmp/t/id0''"
    by (subst generate_temp_file_path.simps) (simp add: joinpath_def)
  have p: "process_files ?w (run_disk ?s0) ''/tmp/t'' [''s/a.sql'']
      = Some ((Some ''/tmp/t/id0'', None), ?d1)"
    by (simp add: process_files_def process_files_try_def write_results_def ta g reset_results_def)
  have r1: "reachable ''/tmp/t'' ?s1"
    using r0 p by (rule reachable.batch_done)
  have i: "0 < length (run_futures ?s1)"
    by simp
  have "reachable ''/tmp/t''
     \<lparr>run_disk = collect_future (run_futures ?s1 ! 0) (run_disk ?s1),
      run_futures = take 0 (run_futures ?s1) @ drop (Suc 0) (run_futures ?s1)\<rparr>"
    using r1 i by (rule reachable.collected)
  then have r2: "reachable ''/tmp/t'' ?s2"
    by simp
  have st: "?d2 RESULTS_DF = Some ?T"
    by (simp add: collect_future_def save_results_def RESULTS_DF_def)
  have f: "filename_freqs sort_values_stable ?T = [(''a.sql'', 1)]"
    by code_simp
  have q: "map snd (groupby_size (map fst ?T)) = [1]"
    by code_simp
  note t0 = provide_output_on_run [OF r0, of sort_values_stable Map.empty]
  note t2 = provide_output_on_run [OF r2, of sort_values_stable Map.empty]
  have a: "fst (provide_output sort_values_stable (reset_results Map.empty)) = NoSqlFound"
    using t0 by (simp only:)
  have "run_disk ?s2 RESULTS_DF = Some ?T"
    using st by simp
  from t2 [THEN conjunct2, THEN conjunct2, THEN conjunct1, rule_format, OF this]
  have "fst (provide_output sort_values_stable (run_disk ?s2)) =
             Summary (length ?T) (length (remdups (map fst ?T)))
               (filename_freqs sort_values_stable ?T) (map snd (groupby_size (map fst ?T)))"
    by (rule conjunct2)
  then have b: "fst (provide_output sort_values_stable ?d2) = Summary 1 1 [(''a.sql'', 1)] [1]"
    by (simp only: f q) simp
  have "snd (provide_output sort_values_stable (run_disk ?s2)) = run_disk ?s2"
    using t2 by (simp only:)
  then have c: "snd (provide_output sort_values_stable ?d2) = ?d2"
    by simp
  show ?thesis by (intro conjI r0 a r2 b c)
qed

end
